theory Spec2Isabelle
  imports Main "HOL-Library.Word"
begin

unbundle bit_operations_syntax

section \<open>JavaScript strings\<close>

text \<open>
  A JavaScript string is a sequence of 16-bit code units, and the regular expressions of
  \<^verbatim>\<open>utils.js\<close> (no \<^verbatim>\<open>u\<close> flag) work on code units. \<open>js\<close> writes
  a literal: each character of an Isabelle string becomes the code unit of the same number.
\<close>

type_synonym jschar = "16 word"
type_synonym jsstring = "jschar list"

definition js :: "string \<Rightarrow> jsstring" where
  "js cs = map of_char cs"

abbreviation comma :: jschar where "comma \<equiv> 0x2C"
abbreviation dquote :: jschar where "dquote \<equiv> 0x22"
abbreviation CR :: jschar where "CR \<equiv> 0x0D"
abbreviation LF :: jschar where "LF \<equiv> 0x0A"
abbreviation space :: jschar where "space \<equiv> 0x20"

text \<open>\<^verbatim>\<open>s.charAt(i)\<close>: the one-unit string at \<open>i\<close>, the empty string out of range.\<close>

definition charAt :: "jsstring \<Rightarrow> nat \<Rightarrow> jsstring" where
  "charAt s i = (if i < length s then [s ! i] else [])"

text \<open>
  \<^verbatim>\<open>s.substring(a, b)\<close> on indices that are not negative: both are clamped to the
  length and swapped when \<open>a\<close> is the larger. \<^verbatim>\<open>s.substring(a)\<close> runs to the end.
\<close>

definition substring :: "jsstring \<Rightarrow> nat \<Rightarrow> nat \<Rightarrow> jsstring" where
  "substring s a b =
     (let a' = min a (length s); b' = min b (length s)
      in take (max a' b' - min a' b') (drop (min a' b') s))"

definition substring_from :: "jsstring \<Rightarrow> nat \<Rightarrow> jsstring" where
  "substring_from s a = drop (min a (length s)) s"

text \<open>
  \<^verbatim>\<open>s.trim()\<close> removes the white space and line terminators of ECMAScript from both
  ends: TAB, LF, VT, FF, CR, SP, NBSP, U+1680, U+2000 to U+200A, LS, PS, U+202F, U+205F,
  U+3000 and the byte order mark U+FEFF (the space separators of Unicode since 6.3, where
  U+180E is no longer one).
\<close>

definition white_space :: "jschar \<Rightarrow> bool" where
  "white_space c \<longleftrightarrow>
     c \<in> {0x09, 0x0A, 0x0B, 0x0C, 0x0D, 0x20, 0xA0, 0x1680, 0x2000, 0x2001, 0x2002,
          0x2003, 0x2004, 0x2005, 0x2006, 0x2007, 0x2008, 0x2009, 0x200A, 0x2028, 0x2029,
          0x202F, 0x205F, 0x3000, 0xFEFF}"

definition trim :: "jsstring \<Rightarrow> jsstring" where
  "trim s = rev (dropWhile white_space (rev (dropWhile white_space s)))"

text \<open>\<^verbatim>\<open>s.replace(/""/g, '"')\<close>: every pair of quotes found from left to right, without overlap, becomes one quote.\<close>

fun replace_quote_pairs :: "jsstring \<Rightarrow> jsstring" where
  "replace_quote_pairs (a # b # cs) =
     (if a = dquote \<and> b = dquote then dquote # replace_quote_pairs cs
      else a # replace_quote_pairs (b # cs))"
| "replace_quote_pairs cs = cs"

section \<open>The two field-end regular expressions\<close>

text \<open>The character class \<^verbatim>\<open>[,\015\012]\<close>: comma, carriage return, line feed.\<close>

definition delimiter :: "jschar \<Rightarrow> bool" where
  "delimiter c \<longleftrightarrow> c = comma \<or> c = CR \<or> c = LF"

text \<open>
  The group \<^verbatim>\<open>([,\015\012] *)\<close> matched at the head of the rest of the input: one
  delimiter and every space that follows it (the star is greedy and nothing follows it).
\<close>

fun delim_spaces :: "jsstring \<Rightarrow> jsstring option" where
  "delim_spaces [] = None"
| "delim_spaces (c # cs) =
     (if delimiter c then Some (c # takeWhile (\<lambda>x. x = space) cs) else None)"

text \<open>
  \<^verbatim>\<open>/([,\015\012] *)/g\<close> searched from the head of the rest of the input: the offset
  of the leftmost match and the text of group 1.
\<close>

fun fieldEndMarker_search :: "jsstring \<Rightarrow> (nat \<times> jsstring) option" where
  "fieldEndMarker_search [] = None"
| "fieldEndMarker_search (c # cs) =
     (case delim_spaces (c # cs) of
        Some g \<Rightarrow> Some (0, g)
      | None \<Rightarrow>
          (case fieldEndMarker_search cs of
             None \<Rightarrow> None
           | Some (k, g) \<Rightarrow> Some (Suc k, g)))"

text \<open>
  The tail \<^verbatim>\<open>"([,\015\012] *)\<close> of the quoted marker at the head of the rest: the
  matched text and group 2.
\<close>

fun closing_quote :: "jsstring \<Rightarrow> (jsstring \<times> jsstring) option" where
  "closing_quote [] = None"
| "closing_quote (c # cs) =
     (if c = dquote
      then (case delim_spaces cs of Some g \<Rightarrow> Some (c # g, g) | None \<Rightarrow> None)
      else None)"

text \<open>
  \<^verbatim>\<open>("")*"([,\015\012] *)\<close> matched at the head of the rest. The star is greedy: it
  takes one more pair of quotes when there is one, and gives the pair back when the rest of
  the pattern fails after it.
\<close>

fun qFieldEndMarker_at :: "jsstring \<Rightarrow> (jsstring \<times> jsstring) option" where
  "qFieldEndMarker_at (a # b # cs) =
     (if a = dquote \<and> b = dquote
      then (case qFieldEndMarker_at cs of
              Some (w, g) \<Rightarrow> Some (a # b # w, g)
            | None \<Rightarrow> closing_quote (a # b # cs))
      else closing_quote (a # b # cs))"
| "qFieldEndMarker_at cs = closing_quote cs"

text \<open>
  \<^verbatim>\<open>/("")*"([,\015\012] *)/g\<close> searched from the head of the rest: the offset of the
  leftmost match, the matched text and group 2.
\<close>

fun qFieldEndMarker_search :: "jsstring \<Rightarrow> (nat \<times> jsstring \<times> jsstring) option" where
  "qFieldEndMarker_search [] = None"
| "qFieldEndMarker_search (c # cs) =
     (case qFieldEndMarker_at (c # cs) of
        Some (w, g) \<Rightarrow> Some (0, w, g)
      | None \<Rightarrow>
          (case qFieldEndMarker_search cs of
             None \<Rightarrow> None
           | Some (k, w, g) \<Rightarrow> Some (Suc k, w, g)))"

text \<open>
  What \<^verbatim>\<open>endMarkerRE.exec(csvString)\<close> leaves when it matches: \<open>whole\<close> is
  \<^verbatim>\<open>matchArray[0]\<close>, \<open>last_group\<close> is \<^verbatim>\<open>matchArray[matchArray.length - 1]\<close>
  (group 1 of the unquoted marker, group 2 of the quoted one), \<open>lastIndex\<close> is the
  regular expression's \<^verbatim>\<open>lastIndex\<close> after the call, the index after the match.
\<close>

record regex_match =
  whole :: jsstring
  last_group :: jsstring
  lastIndex :: nat

text \<open>\<^verbatim>\<open>exec\<close> with \<^verbatim>\<open>lastIndex\<close> set to \<open>i\<close>; \<open>None\<close> is the null result.\<close>

definition exec_fieldEndMarker :: "jsstring \<Rightarrow> nat \<Rightarrow> regex_match option" where
  "exec_fieldEndMarker s i =
     (if length s < i then None
      else (case fieldEndMarker_search (drop i s) of
              None \<Rightarrow> None
            | Some (k, g) \<Rightarrow>
                Some \<lparr>whole = g, last_group = g, lastIndex = i + k + length g\<rparr>))"

definition exec_qFieldEndMarker :: "jsstring \<Rightarrow> nat \<Rightarrow> regex_match option" where
  "exec_qFieldEndMarker s i =
     (if length s < i then None
      else (case qFieldEndMarker_search (drop i s) of
              None \<Rightarrow> None
            | Some (k, w, g) \<Rightarrow>
                Some \<lparr>whole = w, last_group = g, lastIndex = i + k + length w\<rparr>))"

section \<open>parseCSV\<close>

text \<open>The local variables of \<^verbatim>\<open>parseCSV\<close> that live across iterations.\<close>

record scan =
  startIndex :: nat
  records :: "jsstring list list"
  currentRecord :: "jsstring list"

text \<open>
  One run of the body of the \<^verbatim>\<open>do ... while (true)\<close> loop (lines 85 to 104).
  \<open>None\<close> is the \<^verbatim>\<open>break\<close>; otherwise the variables after the iteration.
\<close>

definition loop_body :: "jsstring \<Rightarrow> scan \<Rightarrow> scan option" where
  "loop_body csvString st =
     (let ch = charAt csvString (startIndex st);
          matchArray =
            (if ch = [dquote] then exec_qFieldEndMarker csvString (startIndex st)
             else exec_fieldEndMarker csvString (startIndex st))
      in case matchArray of
           None \<Rightarrow> None
         | Some m \<Rightarrow>
             (let endIndex = lastIndex m - length (last_group m);
                  match = substring csvString (startIndex st) endIndex;
                  field =
                    (if charAt match 0 = [dquote]
                     then replace_quote_pairs (substring match 1 (length match - 1))
                     else match);
                  current = currentRecord st @ [field];
                  marker = whole m
              in if comma \<notin> set marker
                 then Some \<lparr>startIndex = lastIndex m, records = records st @ [current],
                            currentRecord = []\<rparr>
                 else Some \<lparr>startIndex = lastIndex m, records = records st,
                            currentRecord = current\<rparr>))"

text \<open>The loop: it runs the body until the body breaks.\<close>

partial_function (option) parse_loop :: "jsstring \<Rightarrow> scan \<Rightarrow> scan option" where
  "parse_loop csvString st =
     (case loop_body csvString st of
        None \<Rightarrow> Some st
      | Some st' \<Rightarrow> parse_loop csvString st')"

text \<open>Lines 106 to 115: the text left after the last marker, and the last record.\<close>

definition after_loop :: "jsstring \<Rightarrow> scan \<Rightarrow> jsstring list list" where
  "after_loop csvString st =
     (let remaining = trim (substring_from csvString (startIndex st));
          current =
            (if startIndex st < length csvString \<and> remaining \<noteq> []
             then currentRecord st @ [remaining] else currentRecord st)
      in if 0 < length current then records st @ [current] else records st)"

definition parseCSV :: "jsstring \<Rightarrow> jsstring list list option" where
  "parseCSV csvString =
     (case parse_loop csvString \<lparr>startIndex = 0, records = [], currentRecord = []\<rparr> of
        None \<Rightarrow> None
      | Some st \<Rightarrow> Some (after_loop csvString st))"

declare parse_loop.simps [code]

section \<open>JavaScript values, getErrors and getPropertyPath\<close>

text \<open>
  The values the two helpers handle. A number is its IEEE 754 double, as its 64 bits; an
  array is the list of its elements; an object is the list of its own properties, each key
  once; a function is a reference.
\<close>

datatype jsval =
    JSUndefined
  | JSNull
  | JSBoolean bool
  | JSNumber "64 word"
  | JSString jsstring
  | JSArray "jsval list"
  | JSObject "(jsstring \<times> jsval) list"
  | JSFunction nat

text \<open>The doubles \<open>+0\<close> and \<open>-0\<close>: every bit but the sign is clear.\<close>

definition is_zero :: "64 word \<Rightarrow> bool" where
  "is_zero d \<longleftrightarrow> take_bit 63 d = 0"

text \<open>The NaNs: the eleven exponent bits are set and the fraction is not zero.\<close>

definition is_NaN :: "64 word \<Rightarrow> bool" where
  "is_NaN d \<longleftrightarrow> take_bit 11 (drop_bit 52 d) = 0x7FF \<and> take_bit 52 d \<noteq> 0"

text \<open>
  ToBoolean, which \<^verbatim>\<open>!obj\<close> and \<^verbatim>\<open>x || []\<close> apply: \<^verbatim>\<open>undefined\<close>,
  \<^verbatim>\<open>null\<close>, \<^verbatim>\<open>false\<close>, the zeros, NaN and the empty string are falsy, every
  other value is truthy.
\<close>

fun truthy :: "jsval \<Rightarrow> bool" where
  "truthy JSUndefined = False"
| "truthy JSNull = False"
| "truthy (JSBoolean b) = b"
| "truthy (JSNumber d) = (\<not> is_zero d \<and> \<not> is_NaN d)"
| "truthy (JSString s) = (s \<noteq> [])"
| "truthy (JSArray xs) = True"
| "truthy (JSObject kvs) = True"
| "truthy (JSFunction f) = True"

text \<open>How the evaluation of a call ends: with a value, or with a value thrown.\<close>

datatype completion = Returned jsval | Thrown jsval

text \<open>\<^verbatim>\<open>arr.concat(v)\<close>: the elements of an array \<open>v\<close>, any other value as one element.\<close>

fun concat_value :: "jsval list \<Rightarrow> jsval \<Rightarrow> jsval list" where
  "concat_value arr (JSArray xs) = arr @ xs"
| "concat_value arr v = arr @ [v]"

text \<open>
  \<^verbatim>\<open>getErrors(fn, args)\<close>. The parameter \<open>fn\<close> gives how \<^verbatim>\<open>fn.apply(this, args)\<close>
  ends, from \<^verbatim>\<open>this\<close> and \<^verbatim>\<open>args\<close>: a call of a value that is not callable, or
  with arguments that are not a list, ends with the TypeError thrown. The call is taken to
  end. The inner \<open>case\<close> is the \<^verbatim>\<open>try\<close> block, the outer one the \<^verbatim>\<open>catch\<close>
  and the \<^verbatim>\<open>return\<close>.
\<close>

definition getErrors :: "(jsval \<Rightarrow> jsval \<Rightarrow> completion) \<Rightarrow> jsval \<Rightarrow> jsval \<Rightarrow> completion" where
  "getErrors fn this args =
     (let arr = [] in
      case (case fn this args of
              Thrown e \<Rightarrow> Inl e
            | Returned v \<Rightarrow> Inr (concat_value arr (if truthy v then v else JSArray [])))
      of Inl e \<Rightarrow> Returned (JSArray (arr @ [e]))
       | Inr arr' \<Rightarrow> Returned (JSArray arr'))"

text \<open>
  \<^verbatim>\<open>getPropertyPath(obj, path)\<close>. The parameter \<open>get\<close> is the property read
  \<^verbatim>\<open>obj[key]\<close> of the language, which the function calls on truthy values only.
\<close>

function getPropertyPath :: "(jsval \<Rightarrow> jsval \<Rightarrow> jsval) \<Rightarrow> jsval \<Rightarrow> jsval \<Rightarrow> jsval" where
  "getPropertyPath get obj path =
     (let path' = (case path of JSArray ks \<Rightarrow> ks | _ \<Rightarrow> [path])
      in if path' = [] \<or> \<not> truthy obj then obj
         else getPropertyPath get (get obj (hd path')) (JSArray (tl path')))"
  by pat_completeness auto
termination
  by (relation "measure (\<lambda>(get, obj, path). case path of JSArray ks \<Rightarrow> length ks | _ \<Rightarrow> 1)")
    (auto split: jsval.splits)

section \<open>Notions the properties are stated with\<close>

text \<open>\<^verbatim>\<open>r.join(",")\<close>: the fields of a record with one comma between neighbours.\<close>

fun join_commas :: "jsstring list \<Rightarrow> jsstring" where
  "join_commas [] = []"
| "join_commas [f] = f"
| "join_commas (f # g # fs) = f @ comma # join_commas (g # fs)"

text \<open>A field with no comma, quote, carriage return or line feed in it.\<close>

definition plain_field :: "jsstring \<Rightarrow> bool" where
  "plain_field f \<longleftrightarrow> (\<forall>c \<in> set f. c \<noteq> comma \<and> c \<noteq> dquote \<and> c \<noteq> CR \<and> c \<noteq> LF)"

text \<open>
  The variables after an iteration that pushed \<open>field\<close> and moved the cursor to \<open>idx\<close>;
  \<open>ends_record\<close> says that the marker held no comma.
\<close>

definition pushed :: "scan \<Rightarrow> jsstring \<Rightarrow> bool \<Rightarrow> nat \<Rightarrow> scan" where
  "pushed st field ends_record idx =
     (if ends_record
      then \<lparr>startIndex = idx, records = records st @ [currentRecord st @ [field]],
            currentRecord = []\<rparr>
      else \<lparr>startIndex = idx, records = records st,
            currentRecord = currentRecord st @ [field]\<rparr>)"

text \<open>The variables after \<open>n\<close> iterations that each found a marker; \<open>None\<close> when an earlier one broke.\<close>

fun iterations :: "nat \<Rightarrow> jsstring \<Rightarrow> scan \<Rightarrow> scan option" where
  "iterations 0 csvString st = Some st"
| "iterations (Suc n) csvString st =
     (case loop_body csvString st of
        None \<Rightarrow> None
      | Some st' \<Rightarrow> iterations n csvString st')"

text \<open>Writing a text into a quoted field: every quote is doubled.\<close>

definition double_quotes :: "jsstring \<Rightarrow> jsstring" where
  "double_quotes t = concat (map (\<lambda>c. if c = dquote then [dquote, dquote] else [c]) t)"

text \<open>Somewhere in the text a quote stands directly before a delimiter.\<close>

fun quote_before_delimiter :: "jsstring \<Rightarrow> bool" where
  "quote_before_delimiter (a # b # cs) =
     ((a = dquote \<and> delimiter b) \<or> quote_before_delimiter (b # cs))"
| "quote_before_delimiter cs = False"

section \<open>The regular expressions\<close>

lemma not_delimiter_dquote [simp]: "\<not> delimiter dquote"
  by (simp add: delimiter_def)

lemma not_delimiter_space [simp]: "\<not> delimiter space"
  by (simp add: delimiter_def)

lemma delimiter_comma [simp]: "delimiter comma"
  by (simp add: delimiter_def)

lemma delim_spaces_Some:
  "delim_spaces xs = Some g \<Longrightarrow>
     \<exists>c cs. xs = c # cs \<and> delimiter c \<and> g = c # takeWhile (\<lambda>x. x = space) cs"
  by (cases xs) (auto split: if_splits)

lemma fieldEndMarker_search_Some:
  "fieldEndMarker_search xs = Some (k, g) \<Longrightarrow>
     k < length xs \<and> delimiter (xs ! k) \<and> (\<forall>j<k. \<not> delimiter (xs ! j)) \<and>
     g = xs ! k # takeWhile (\<lambda>x. x = space) (drop (Suc k) xs)"
proof (induction xs arbitrary: k)
  case Nil
  then show ?case by simp
next
  case (Cons c cs)
  show ?case
  proof (cases "delimiter c")
    case True
    with Cons.prems show ?thesis by auto
  next
    case False
    with Cons.prems obtain k' where k': "k = Suc k'" "fieldEndMarker_search cs = Some (k', g)"
      by (auto split: option.splits)
    from Cons.IH [OF k'(2)] False k'(1) show ?thesis
      by (auto simp: less_Suc_eq_0_disj)
  qed
qed

lemma fieldEndMarker_search_None:
  "fieldEndMarker_search xs = None \<longleftrightarrow> (\<forall>c \<in> set xs. \<not> delimiter c)"
  by (induction xs) (auto split: option.splits)

lemma fieldEndMarker_search_append:
  "\<forall>c \<in> set f. \<not> delimiter c \<Longrightarrow> delimiter d \<Longrightarrow>
     fieldEndMarker_search (f @ d # rest) = Some (length f, d # takeWhile (\<lambda>x. x = space) rest)"
  by (induction f) auto

lemma closing_quote_Some:
  "closing_quote xs = Some (w, g) \<Longrightarrow>
     \<exists>d rest. xs = dquote # d # rest \<and> delimiter d \<and>
       g = d # takeWhile (\<lambda>x. x = space) rest \<and> w = dquote # g"
  by (cases xs) (auto split: if_splits option.splits dest: delim_spaces_Some)

lemma qFieldEndMarker_at_Some:
  "qFieldEndMarker_at xs = Some (w, g) \<Longrightarrow>
     \<exists>n d rest. xs = replicate (2 * n + 1) dquote @ d # rest \<and> delimiter d \<and>
       g = d # takeWhile (\<lambda>x. x = space) rest \<and> w = replicate (2 * n + 1) dquote @ g"
proof (induction xs arbitrary: w rule: qFieldEndMarker_at.induct)
  case (1 a b cs)
  show ?case
  proof (cases "a = dquote \<and> b = dquote")
    case True
    show ?thesis
    proof (cases "qFieldEndMarker_at cs")
      case None
      with True "1.prems" have "closing_quote (a # b # cs) = Some (w, g)" by simp
      with True show ?thesis by simp
    next
      case (Some p)
      obtain w' g' where p: "p = (w', g')" by (cases p)
      with Some True "1.prems" have wg: "w = a # b # w'" "g' = g" by auto
      from "1.IH" [OF True] Some p wg obtain n d rest where
        *: "cs = replicate (2 * n + 1) dquote @ d # rest" "delimiter d"
           "g = d # takeWhile (\<lambda>x. x = space) rest" "w' = replicate (2 * n + 1) dquote @ g"
        by blast
      have "a # b # cs = replicate (2 * Suc n + 1) dquote @ d # rest"
        using True *(1) by simp
      moreover have "w = replicate (2 * Suc n + 1) dquote @ g"
        using True wg *(4) by simp
      ultimately show ?thesis using *(2,3) by blast
    qed
  next
    case False
    with "1.prems" have "closing_quote (a # b # cs) = Some (w, g)" by auto
    from closing_quote_Some [OF this] obtain d rest where
      "a # b # cs = dquote # d # rest" "delimiter d"
      "g = d # takeWhile (\<lambda>x. x = space) rest" "w = dquote # g"
      by blast
    then show ?thesis
      by (intro exI [of _ "0::nat"] exI [of _ d] exI [of _ rest]) simp
  qed
qed (simp_all split: if_splits)

lemma qFieldEndMarker_search_Some:
  "qFieldEndMarker_search xs = Some (k, w, g) \<Longrightarrow>
     \<exists>n d rest. drop k xs = replicate (2 * n + 1) dquote @ d # rest \<and> delimiter d \<and>
       g = d # takeWhile (\<lambda>x. x = space) rest \<and> w = replicate (2 * n + 1) dquote @ g"
proof (induction xs arbitrary: k)
  case Nil
  then show ?case by simp
next
  case (Cons c cs)
  show ?case
  proof (cases "qFieldEndMarker_at (c # cs)")
    case None
    with Cons.prems obtain k' where k': "k = Suc k'" "qFieldEndMarker_search cs = Some (k', w, g)"
      by (auto split: option.splits)
    from Cons.IH [OF k'(2)] k'(1) show ?thesis by simp
  next
    case (Some p)
    with Cons.prems have "k = 0" "qFieldEndMarker_at (c # cs) = Some (w, g)"
      by (auto split: prod.splits)
    with qFieldEndMarker_at_Some [of "c # cs" w g] show ?thesis by simp
  qed
qed

subsection \<open>One iteration, by mode\<close>

lemma loop_body_unquoted:
  assumes "charAt s (startIndex st) \<noteq> [dquote]"
  shows "loop_body s st =
     (case fieldEndMarker_search (drop (startIndex st) s) of
        None \<Rightarrow> None
      | Some (k, g) \<Rightarrow>
          Some (pushed st (take k (drop (startIndex st) s)) (hd g \<noteq> comma)
            (startIndex st + k + length g)))"
proof (cases "fieldEndMarker_search (drop (startIndex st) s)")
  case None
  with assms show ?thesis
    by (simp add: loop_body_def exec_fieldEndMarker_def)
next
  case (Some p)
  obtain k g where p: "p = (k, g)" by (cases p)
  let ?i = "startIndex st"
  from fieldEndMarker_search_Some [OF Some [unfolded p]]
  have k: "k < length (drop ?i s)" and d: "delimiter (drop ?i s ! k)"
    and nd: "\<forall>j<k. \<not> delimiter (drop ?i s ! j)"
    and g: "g = drop ?i s ! k # takeWhile (\<lambda>x. x = space) (drop (Suc k) (drop ?i s))"
    by auto
  from k have le: "?i + k < length s" by simp
  have match: "substring s ?i (?i + k + length g - length g) = take k (drop ?i s)"
    using le by (simp add: substring_def min_def max_def)
  have first: "charAt (take k (drop ?i s)) 0 \<noteq> [dquote]"
    using assms le by (auto simp: charAt_def)
  have marker: "comma \<notin> set g \<longleftrightarrow> hd g \<noteq> comma"
    unfolding g by (auto dest: set_takeWhileD)
  from le have "\<not> length s < ?i" by simp
  with assms Some p match first marker show ?thesis
    by (simp add: loop_body_def exec_fieldEndMarker_def Let_def pushed_def)
qed

lemma substring_le:
  "a \<le> b \<Longrightarrow> b \<le> length s \<Longrightarrow> substring s a b = take (b - a) (drop a s)"
  by (simp add: substring_def Let_def min_def max_def)

lemma loop_body_quoted:
  assumes "charAt s (startIndex st) = [dquote]"
  shows "loop_body s st =
     (case qFieldEndMarker_search (drop (startIndex st) s) of
        None \<Rightarrow> None
      | Some (k, w, g) \<Rightarrow>
          Some (pushed st
            (if k + length w - length g = 1 then [dquote]
             else replace_quote_pairs
               (take (k + length w - length g - 2) (drop (Suc (startIndex st)) s)))
            (hd g \<noteq> comma) (startIndex st + k + length w)))"
proof (cases "qFieldEndMarker_search (drop (startIndex st) s)")
  case None
  with assms show ?thesis
    by (simp add: loop_body_def exec_qFieldEndMarker_def)
next
  case (Some p)
  obtain k w g where p: "p = (k, w, g)" by (cases p)
  let ?i = "startIndex st"
  from assms have i: "?i < length s" and si: "s ! ?i = dquote"
    by (auto simp: charAt_def split: if_splits)
  from qFieldEndMarker_search_Some [OF Some [unfolded p]] obtain n d rest where
    dr: "drop k (drop ?i s) = replicate (2 * n + 1) dquote @ d # rest" and d: "delimiter d"
    and g: "g = d # takeWhile (\<lambda>x. x = space) rest"
    and w: "w = replicate (2 * n + 1) dquote @ g"
    by blast
  define m where "m = k + (2 * n + 1)"
  have wg: "length w - length g = 2 * n + 1" "length g \<le> length w"
    unfolding w by simp_all
  from dr have "length (drop k (drop ?i s)) = 2 * n + 1 + Suc (length rest)" by simp
  then have le: "?i + m + Suc (length rest) = length s"
    unfolding m_def by simp
  have endIndex: "?i + k + length w - length g = ?i + m"
    using wg unfolding m_def by simp
  have match: "substring s ?i (?i + m) = take m (drop ?i s)"
    using le by (simp add: substring_def min_def max_def)
  have m_pos: "0 < m" unfolding m_def by simp
  have first: "charAt (take m (drop ?i s)) 0 = [dquote]"
    using i si m_pos le by (simp add: charAt_def)
  have len: "length (take m (drop ?i s)) = m" using le by simp
  have inner: "substring (take m (drop ?i s)) 1 (m - 1) =
      (if m = 1 then [dquote] else take (m - 2) (drop (Suc ?i) s))"
  proof (cases "m = 1")
    case True
    with i si show ?thesis
      by (simp add: substring_def take_Suc_conv_app_nth)
  next
    case False
    with m_pos have m2: "2 \<le> m" by simp
    with len have "substring (take m (drop ?i s)) 1 (m - 1) =
        take (m - 1 - 1) (drop 1 (take m (drop ?i s)))"
      by (intro substring_le) simp_all
    also have "\<dots> = take (m - 2) (drop (Suc ?i) s)"
      using m2 by (simp add: drop_take min_def numeral_2_eq_2)
    finally show ?thesis using False by simp
  qed
  have marker: "comma \<notin> set w \<longleftrightarrow> hd g \<noteq> comma"
    unfolding w g by (auto dest: set_takeWhileD)
  have km: "k + length w - length g = m"
    using wg unfolding m_def by simp
  from le have nl: "\<not> length s < ?i" by simp
  have "loop_body s st = Some (pushed st
      (replace_quote_pairs (if m = 1 then [dquote] else take (m - 2) (drop (Suc ?i) s)))
      (hd g \<noteq> comma) (?i + k + length w))"
    using assms Some p nl endIndex match first len inner marker
    by (simp add: loop_body_def exec_qFieldEndMarker_def Let_def pushed_def)
  with Some p km show ?thesis by simp
qed

lemma loop_body_Some:
  assumes "loop_body s st = Some st'"
  shows "\<exists>field ends idx. st' = pushed st field ends idx \<and> startIndex st < idx \<and> idx \<le> length s"
proof (cases "charAt s (startIndex st) = [dquote]")
  case True
  from assms obtain k w g where
    search: "qFieldEndMarker_search (drop (startIndex st) s) = Some (k, w, g)"
    and st': "st' = pushed st
            (if k + length w - length g = 1 then [dquote]
             else replace_quote_pairs
               (take (k + length w - length g - 2) (drop (Suc (startIndex st)) s)))
            (hd g \<noteq> comma) (startIndex st + k + length w)"
    unfolding loop_body_quoted [OF True] by (auto split: option.splits)
  from qFieldEndMarker_search_Some [OF search] obtain n d rest where
    dr: "drop k (drop (startIndex st) s) = replicate (2 * n + 1) dquote @ d # rest"
    and g: "g = d # takeWhile (\<lambda>x. x = space) rest"
    and w: "w = replicate (2 * n + 1) dquote @ g"
    by blast
  from dr have "length (drop k (drop (startIndex st) s)) = 2 * n + 1 + Suc (length rest)"
    by simp
  moreover have "length w \<le> 2 * n + 1 + Suc (length rest)"
    unfolding w g using length_takeWhile_le [of "\<lambda>x. x = space" rest] by simp
  moreover have "0 < length w" unfolding w by simp
  ultimately have "startIndex st < startIndex st + k + length w"
    "startIndex st + k + length w \<le> length s"
    by simp_all
  with st' show ?thesis by blast
next
  case False
  from assms obtain k g where
    search: "fieldEndMarker_search (drop (startIndex st) s) = Some (k, g)"
    and st': "st' = pushed st (take k (drop (startIndex st) s)) (hd g \<noteq> comma)
            (startIndex st + k + length g)"
    unfolding loop_body_unquoted [OF False] by (auto split: option.splits)
  from fieldEndMarker_search_Some [OF search]
  have k: "k < length (drop (startIndex st) s)"
    and g: "g = drop (startIndex st) s ! k #
          takeWhile (\<lambda>x. x = space) (drop (Suc k) (drop (startIndex st) s))"
    by auto
  have "length g \<le> Suc (length (drop (Suc k) (drop (startIndex st) s)))"
    unfolding g
    using length_takeWhile_le [of "\<lambda>x. x = space" "drop (Suc k) (drop (startIndex st) s)"]
    by simp
  with k have "startIndex st + k + length g \<le> length s" by simp
  moreover have "0 < length g" unfolding g by simp
  ultimately show ?thesis using st' by (intro exI conjI) (assumption, simp_all)
qed

lemma startIndex_pushed [simp]: "startIndex (pushed st f e i) = i"
  by (simp add: pushed_def)

lemma loop_body_advances:
  "loop_body s st = Some st' \<Longrightarrow> startIndex st < startIndex st' \<and> startIndex st' \<le> length s"
  by (auto dest: loop_body_Some)

section \<open>The loop\<close>

lemma parse_loop_ends: "\<exists>st'. parse_loop s st = Some st' \<and> loop_body s st' = None"
proof (induction "length s - startIndex st" arbitrary: st rule: less_induct)
  case less
  show ?case
  proof (cases "loop_body s st")
    case None
    then show ?thesis by (subst parse_loop.simps) simp
  next
    case (Some st1)
    from loop_body_advances [OF Some]
    have "length s - startIndex st1 < length s - startIndex st" by arith
    from less [OF this] obtain st' where "parse_loop s st1 = Some st'" "loop_body s st' = None"
      by blast
    with Some show ?thesis by (subst parse_loop.simps) simp
  qed
qed

lemma parse_loop_invariant:
  assumes "P st" and step: "\<And>a b. P a \<Longrightarrow> loop_body s a = Some b \<Longrightarrow> P b"
    and "parse_loop s st = Some st'"
  shows "P st'"
  using assms(1,3)
proof (induction "length s - startIndex st" arbitrary: st rule: less_induct)
  case less
  show ?case
  proof (cases "loop_body s st")
    case None
    with less.prems(2) have "st' = st" by (subst (asm) parse_loop.simps) simp
    with less.prems(1) show ?thesis by simp
  next
    case (Some st1)
    from loop_body_advances [OF Some]
    have lt: "length s - startIndex st1 < length s - startIndex st" by arith
    from Some less.prems(2) have "parse_loop s st1 = Some st'"
      by (subst (asm) parse_loop.simps) simp
    from less.hyps [OF lt step [OF less.prems(1) Some] this] show ?thesis .
  qed
qed

lemma parse_loop_iterations:
  "\<exists>n st'. n \<le> length s - startIndex st \<and> iterations n s st = Some st' \<and>
     loop_body s st' = None \<and> parse_loop s st = Some st'"
proof (induction "length s - startIndex st" arbitrary: st rule: less_induct)
  case less
  show ?case
  proof (cases "loop_body s st")
    case None
    then have "parse_loop s st = Some st" by (subst parse_loop.simps) simp
    with None show ?thesis by (intro exI [of _ "0::nat"] exI [of _ st]) simp
  next
    case (Some st1)
    from loop_body_advances [OF Some]
    have adv: "startIndex st < startIndex st1" "startIndex st1 \<le> length s" by simp_all
    then have "length s - startIndex st1 < length s - startIndex st" by arith
    from less [OF this] obtain n st' where
      n: "n \<le> length s - startIndex st1" "iterations n s st1 = Some st'"
         "loop_body s st' = None" "parse_loop s st1 = Some st'"
      by blast
    from Some n(4) have "parse_loop s st = Some st'" by (subst parse_loop.simps) simp
    moreover from Some n(2) have "iterations (Suc n) s st = Some st'" by simp
    moreover from n(1) adv have "Suc n \<le> length s - startIndex st" by arith
    ultimately show ?thesis using n(3) by blast
  qed
qed

lemma after_loop_nonempty:
  "[] \<notin> set (records st) \<Longrightarrow> [] \<notin> set (after_loop s st)"
  by (auto simp: after_loop_def Let_def)

lemma loop_body_records_nonempty:
  "[] \<notin> set (records a) \<Longrightarrow> loop_body s a = Some b \<Longrightarrow> [] \<notin> set (records b)"
  by (auto dest!: loop_body_Some simp: pushed_def split: if_splits)

section \<open>Text without a marker, trim, pairs of quotes\<close>

lemma qFieldEndMarker_search_no_delimiter:
  assumes "\<forall>c \<in> set xs. \<not> delimiter c"
  shows "qFieldEndMarker_search xs = None"
proof (rule ccontr)
  assume "qFieldEndMarker_search xs \<noteq> None"
  then obtain k w g where "qFieldEndMarker_search xs = Some (k, w, g)" by auto
  from qFieldEndMarker_search_Some [OF this] obtain n d rest where
    "drop k xs = replicate (2 * n + 1) dquote @ d # rest" "delimiter d"
    by blast
  then have "d \<in> set (drop k xs)" by simp
  then have "d \<in> set xs" by (rule in_set_dropD)
  with assms \<open>delimiter d\<close> show False by blast
qed

lemma loop_body_no_delimiter:
  assumes "\<forall>c \<in> set (drop (startIndex st) s). \<not> delimiter c"
  shows "loop_body s st = None"
proof (cases "charAt s (startIndex st) = [dquote]")
  case True
  with assms show ?thesis
    by (simp add: loop_body_quoted qFieldEndMarker_search_no_delimiter)
next
  case False
  with assms show ?thesis
    by (simp add: loop_body_unquoted fieldEndMarker_search_None [THEN iffD2])
qed

lemma parseCSV_no_delimiter:
  assumes "\<forall>c \<in> set t. \<not> delimiter c"
  shows "parseCSV t = Some (if trim t = [] then [] else [[trim t]])"
proof -
  let ?init = "\<lparr>startIndex = 0, records = [], currentRecord = []\<rparr>"
  from assms have "loop_body t ?init = None"
    by (intro loop_body_no_delimiter) simp
  then have "parse_loop t ?init = Some ?init"
    by (subst parse_loop.simps) simp
  moreover have "trim [] = []" by (simp add: trim_def)
  ultimately show ?thesis
    by (cases t) (simp_all add: parseCSV_def after_loop_def substring_from_def)
qed

lemma trim_decompose:
  "\<exists>a b. t = a @ trim t @ b \<and> (\<forall>c \<in> set a. white_space c) \<and> (\<forall>c \<in> set b. white_space c)"
proof -
  let ?a = "takeWhile white_space t"
  let ?m = "dropWhile white_space t"
  let ?b = "rev (takeWhile white_space (rev ?m))"
  have "trim t @ ?b = ?m"
    unfolding trim_def
    by (metis rev_append rev_rev_ident takeWhile_dropWhile_id)
  then have "t = ?a @ trim t @ ?b" by simp
  moreover have "\<forall>c \<in> set ?a. white_space c" by (auto dest: set_takeWhileD)
  moreover have "\<forall>c \<in> set ?b. white_space c" by (auto dest: set_takeWhileD)
  ultimately show ?thesis by blast
qed

lemma double_quotes_simps [simp]:
  "double_quotes [] = []"
  "double_quotes (c # t) =
     (if c = dquote then dquote # dquote # double_quotes t else c # double_quotes t)"
  by (simp_all add: double_quotes_def)

lemma replace_quote_pairs_other [simp]:
  "a \<noteq> dquote \<Longrightarrow> replace_quote_pairs (a # xs) = a # replace_quote_pairs xs"
  by (cases xs) simp_all

lemma replace_quote_pairs_double_quotes: "replace_quote_pairs (double_quotes t) = t"
  by (induction t) simp_all

lemma replace_quote_pairs_keeps_others:
  "filter (\<lambda>x. x \<noteq> dquote) (replace_quote_pairs t) = filter (\<lambda>x. x \<noteq> dquote) t"
  by (induction t rule: replace_quote_pairs.induct) auto

lemma drop_eq_appendD:
  assumes "drop m s = ys @ d # rest"
  shows "m + length ys < length s" "s ! (m + length ys) = d"
    "drop (Suc (m + length ys)) s = rest"
proof -
  from assms have "length (drop m s) = length ys + Suc (length rest)" by simp
  then show lt: "m + length ys < length s" by simp
  have "s ! (m + length ys) = drop m s ! length ys"
    using lt by simp
  then show "s ! (m + length ys) = d" using assms by simp
  have "drop (Suc (m + length ys)) s = drop (Suc (length ys)) (drop m s)"
    by (simp add: add.commute)
  then show "drop (Suc (m + length ys)) s = rest" using assms by simp
qed

lemma loop_body_unquoted_Some:
  assumes "charAt s (startIndex st) \<noteq> [dquote]" and "loop_body s st = Some st'"
  shows "\<exists>d. startIndex st \<le> d \<and> d < length s \<and> delimiter (s ! d) \<and>
     (\<forall>j. startIndex st \<le> j \<and> j < d \<longrightarrow> \<not> delimiter (s ! j)) \<and>
     st' = pushed st (take (d - startIndex st) (drop (startIndex st) s)) (s ! d \<noteq> comma)
       (Suc d + length (takeWhile (\<lambda>x. x = space) (drop (Suc d) s)))"
proof -
  let ?i = "startIndex st"
  from assms obtain k g where
    search: "fieldEndMarker_search (drop ?i s) = Some (k, g)"
    and st': "st' = pushed st (take k (drop ?i s)) (hd g \<noteq> comma) (?i + k + length g)"
    unfolding loop_body_unquoted [OF assms(1)] by (auto split: option.splits)
  from fieldEndMarker_search_Some [OF search]
  have k: "k < length (drop ?i s)" and d: "delimiter (drop ?i s ! k)"
    and nd: "\<forall>j<k. \<not> delimiter (drop ?i s ! j)"
    and g: "g = drop ?i s ! k # takeWhile (\<lambda>x. x = space) (drop (Suc k) (drop ?i s))"
    by auto
  from k have lt: "?i + k < length s" by simp
  have nth: "drop ?i s ! k = s ! (?i + k)" using lt by simp
  have before: "\<forall>j. ?i \<le> j \<and> j < ?i + k \<longrightarrow> \<not> delimiter (s ! j)"
  proof (intro allI impI)
    fix j assume j: "?i \<le> j \<and> j < ?i + k"
    then have "j - ?i < k" by arith
    with nd have "\<not> delimiter (drop ?i s ! (j - ?i))" by blast
    moreover have "drop ?i s ! (j - ?i) = s ! j" using j lt by simp
    ultimately show "\<not> delimiter (s ! j)" by simp
  qed
  have "st' = pushed st (take (?i + k - ?i) (drop ?i s)) (s ! (?i + k) \<noteq> comma)
       (Suc (?i + k) + length (takeWhile (\<lambda>x. x = space) (drop (Suc (?i + k)) s)))"
    unfolding st' g nth by (simp add: add.commute)
  with lt d nth before show ?thesis
    by (intro exI [of _ "?i + k"]) simp
qed

lemma loop_body_quoted_Some:
  assumes "charAt s (startIndex st) = [dquote]" and "loop_body s st = Some st'"
  shows "\<exists>c. startIndex st \<le> c \<and> Suc c < length s \<and> s ! c = dquote \<and> delimiter (s ! Suc c) \<and>
     st' = pushed st
       (if c = startIndex st then [dquote]
        else replace_quote_pairs (take (c - Suc (startIndex st)) (drop (Suc (startIndex st)) s)))
       (s ! Suc c \<noteq> comma)
       (c + 2 + length (takeWhile (\<lambda>x. x = space) (drop (c + 2) s)))"
proof -
  let ?i = "startIndex st"
  from assms obtain k w g where
    search: "qFieldEndMarker_search (drop ?i s) = Some (k, w, g)"
    and st': "st' = pushed st
            (if k + length w - length g = 1 then [dquote]
             else replace_quote_pairs (take (k + length w - length g - 2) (drop (Suc ?i) s)))
            (hd g \<noteq> comma) (?i + k + length w)"
    unfolding loop_body_quoted [OF assms(1)] by (auto split: option.splits)
  from qFieldEndMarker_search_Some [OF search] obtain n d rest where
    dr: "drop k (drop ?i s) = replicate (2 * n + 1) dquote @ d # rest" and d: "delimiter d"
    and g: "g = d # takeWhile (\<lambda>x. x = space) rest"
    and w: "w = replicate (2 * n + 1) dquote @ g"
    by blast
  define c where "c = ?i + k + 2 * n"
  from dr have dr1: "drop (?i + k) s = replicate (2 * n + 1) dquote @ d # rest"
    by (simp add: add.commute)
  from drop_eq_appendD [OF dr1]
  have lt: "Suc c < length s" and sd: "s ! Suc c = d" and rest: "drop (c + 2) s = rest"
    unfolding c_def by simp_all
  from dr1 have "drop (?i + k) s = replicate (2 * n) dquote @ dquote # d # rest"
    by (simp add: replicate_append_same)
  from drop_eq_appendD(2) [OF this] have sc: "s ! c = dquote"
    unfolding c_def by simp
  have len: "k + length w - length g = Suc (c - ?i)"
    unfolding w c_def by simp
  have idx: "?i + k + length w = c + 2 + length (takeWhile (\<lambda>x. x = space) rest)"
    unfolding w g c_def by simp
  have "st' = pushed st
       (if c = ?i then [dquote]
        else replace_quote_pairs (take (c - Suc ?i) (drop (Suc ?i) s)))
       (s ! Suc c \<noteq> comma)
       (c + 2 + length (takeWhile (\<lambda>x. x = space) (drop (c + 2) s)))"
    unfolding st' len idx rest sd using g c_def by auto
  moreover have "?i \<le> c" unfolding c_def by simp
  ultimately show ?thesis using lt sc sd d by blast
qed

lemma marker_spaces:
  fixes s :: jsstring
  defines "n \<equiv> \<lambda>d. Suc d + length (takeWhile (\<lambda>x. x = space) (drop (Suc d) s))"
  assumes "d < length s"
  shows "n d \<le> length s" "\<forall>p. d < p \<and> p < n d \<longrightarrow> s ! p = space"
    "n d < length s \<longrightarrow> s ! n d \<noteq> space"
proof -
  let ?xs = "drop (Suc d) s"
  let ?tw = "takeWhile (\<lambda>x. x = space) ?xs"
  have le: "length ?tw \<le> length ?xs" by (rule length_takeWhile_le)
  then show "n d \<le> length s" using assms(2) unfolding n_def by simp
  show "\<forall>p. d < p \<and> p < n d \<longrightarrow> s ! p = space"
  proof (intro allI impI)
    fix p assume p: "d < p \<and> p < n d"
    then have j: "p - Suc d < length ?tw" unfolding n_def by arith
    then have "?tw ! (p - Suc d) \<in> set ?tw" by (rule nth_mem)
    then have "?tw ! (p - Suc d) = space" by (auto dest: set_takeWhileD)
    moreover have "?tw ! (p - Suc d) = ?xs ! (p - Suc d)" using j by (rule takeWhile_nth)
    moreover have "?xs ! (p - Suc d) = s ! p" using p j le by simp
    ultimately show "s ! p = space" by simp
  qed
  show "n d < length s \<longrightarrow> s ! n d \<noteq> space"
  proof
    assume "n d < length s"
    then have "length ?tw < length ?xs" unfolding n_def by simp
    then have "?xs ! length ?tw \<noteq> space" by (rule nth_length_takeWhile)
    moreover have "?xs ! length ?tw = s ! n d"
      using \<open>n d < length s\<close> unfolding n_def by simp
    ultimately show "s ! n d \<noteq> space" by simp
  qed
qed

lemma take_between_quotes:
  assumes "i < c" "c < length s"
  shows "take (Suc c - i) (drop i s) = s ! i # take (c - Suc i) (drop (Suc i) s) @ [s ! c]"
proof -
  from assms have "drop i s = s ! i # drop (Suc i) s"
    by (simp add: Cons_nth_drop_Suc)
  moreover from assms have "Suc c - i = Suc (Suc (c - Suc i))" by arith
  moreover from assms have "take (Suc (c - Suc i)) (drop (Suc i) s) =
      take (c - Suc i) (drop (Suc i) s) @ [drop (Suc i) s ! (c - Suc i)]"
    by (intro take_Suc_conv_app_nth) simp
  moreover from assms have "drop (Suc i) s ! (c - Suc i) = s ! c" by simp
  ultimately show ?thesis by simp
qed

lemma loop_body_marker:
  assumes "loop_body s st = Some st'"
  shows "\<exists>d field. startIndex st \<le> d \<and> d < length s \<and> delimiter (s ! d) \<and>
     st' = pushed st field (s ! d \<noteq> comma)
       (Suc d + length (takeWhile (\<lambda>x. x = space) (drop (Suc d) s))) \<and>
     d < startIndex st' \<and> startIndex st' \<le> length s \<and>
     (\<forall>p. d < p \<and> p < startIndex st' \<longrightarrow> s ! p = space) \<and>
     (startIndex st' < length s \<longrightarrow> s ! startIndex st' \<noteq> space) \<and>
     (if charAt s (startIndex st) = [dquote]
      then filter (\<lambda>x. x \<noteq> dquote) field =
           filter (\<lambda>x. x \<noteq> dquote) (take (d - startIndex st) (drop (startIndex st) s))
      else field = take (d - startIndex st) (drop (startIndex st) s))"
proof (cases "charAt s (startIndex st) = [dquote]")
  case False
  from loop_body_unquoted_Some [OF False assms] obtain d where
    d: "startIndex st \<le> d" "d < length s" "delimiter (s ! d)"
    and st': "st' = pushed st (take (d - startIndex st) (drop (startIndex st) s)) (s ! d \<noteq> comma)
       (Suc d + length (takeWhile (\<lambda>x. x = space) (drop (Suc d) s)))"
    by blast
  have idx: "startIndex st' = Suc d + length (takeWhile (\<lambda>x. x = space) (drop (Suc d) s))"
    unfolding st' by simp
  from marker_spaces [OF d(2)] d False st' show ?thesis
    unfolding idx
    by (intro exI [of _ d] exI [of _ "take (d - startIndex st) (drop (startIndex st) s)"])
      (simp del: length_drop)
next
  case True
  let ?i = "startIndex st"
  from loop_body_quoted_Some [OF True assms] obtain c where
    c: "?i \<le> c" "Suc c < length s" "s ! c = dquote" "delimiter (s ! Suc c)"
    and st': "st' = pushed st
       (if c = ?i then [dquote]
        else replace_quote_pairs (take (c - Suc ?i) (drop (Suc ?i) s)))
       (s ! Suc c \<noteq> comma)
       (c + 2 + length (takeWhile (\<lambda>x. x = space) (drop (c + 2) s)))"
    by blast
  let ?field = "if c = ?i then [dquote]
        else replace_quote_pairs (take (c - Suc ?i) (drop (Suc ?i) s))"
  from True have si: "?i < length s" "s ! ?i = dquote"
    by (auto simp: charAt_def split: if_splits)
  have flt: "filter (\<lambda>x. x \<noteq> dquote) ?field =
      filter (\<lambda>x. x \<noteq> dquote) (take (Suc c - ?i) (drop ?i s))"
  proof (cases "c = ?i")
    case True
    with si show ?thesis by (simp add: take_Suc_conv_app_nth)
  next
    case False
    with c(1) have "?i < c" by simp
    from c(2) have "c < length s" by simp
    from take_between_quotes [OF \<open>?i < c\<close> this]
    have "take (Suc c - ?i) (drop ?i s) =
        dquote # take (c - Suc ?i) (drop (Suc ?i) s) @ [dquote]"
      using si(2) c(3) by simp
    with False show ?thesis
      by (simp add: replace_quote_pairs_keeps_others)
  qed
  have st'2: "st' = pushed st ?field (s ! Suc c \<noteq> comma)
      (Suc (Suc c) + length (takeWhile (\<lambda>x. x = space) (drop (Suc (Suc c)) s)))"
    unfolding st' by simp
  have idx: "startIndex st' =
      Suc (Suc c) + length (takeWhile (\<lambda>x. x = space) (drop (Suc (Suc c)) s))"
    unfolding st'2 by simp
  from marker_spaces [OF c(2)] c True flt st'2 show ?thesis
    unfolding idx
    by (intro exI [of _ "Suc c"] exI [of _ ?field]) (simp del: length_drop)
qed

lemma loop_body_unquoted_field:
  assumes "startIndex st = length pre" and "\<forall>c \<in> set f. \<not> delimiter c"
    and "f \<noteq> [] \<longrightarrow> hd f \<noteq> dquote" and "delimiter d"
  shows "loop_body (pre @ f @ d # rest) st =
     Some (pushed st f (d \<noteq> comma)
       (length pre + length f + 1 + length (takeWhile (\<lambda>x. x = space) rest)))"
proof -
  have "charAt (pre @ f @ d # rest) (startIndex st) = [hd (f @ [d])]"
    using assms(1) by (cases f) (simp_all add: charAt_def nth_append)
  moreover have "hd (f @ [d]) \<noteq> dquote"
    using assms(3,4) by (cases f) auto
  ultimately have "charAt (pre @ f @ d # rest) (startIndex st) \<noteq> [dquote]" by simp
  from loop_body_unquoted [OF this] assms(1) fieldEndMarker_search_append [OF assms(2,4)]
  show ?thesis by simp
qed

lemma plain_field_no_delimiter: "plain_field f \<Longrightarrow> \<forall>c \<in> set f. \<not> delimiter c"
  by (auto simp: plain_field_def delimiter_def)

lemma plain_field_hd: "plain_field f \<Longrightarrow> f \<noteq> [] \<longrightarrow> hd f \<noteq> dquote"
  by (cases f) (auto simp: plain_field_def)

lemma join_commas_no_leading_space:
  "g = [] \<or> hd g \<noteq> space \<Longrightarrow> takeWhile (\<lambda>x. x = space) (join_commas (g # fs)) = []"
  by (cases g; cases fs) auto

lemma parseCSV_Some_nonempty: "parseCSV s = Some recs \<Longrightarrow> [] \<notin> set recs"
proof -
  assume a: "parseCSV s = Some recs"
  let ?init = "\<lparr>startIndex = 0, records = [], currentRecord = []\<rparr>"
  from a obtain st' where st': "parse_loop s ?init = Some st'" and recs: "recs = after_loop s st'"
    by (auto simp: parseCSV_def split: option.splits)
  have "[] \<notin> set (records st')"
    by (rule parse_loop_invariant [where P = "\<lambda>st. [] \<notin> set (records st)", OF _ _ st'])
      (simp_all add: loop_body_records_nonempty)
  then show ?thesis unfolding recs by (rule after_loop_nonempty)
qed

lemma parse_joined_record:
  assumes "r \<noteq> []" and "\<forall>f \<in> set r. plain_field f"
    and "\<forall>f \<in> set (tl r). f = [] \<or> hd f \<noteq> space"
    and "last r \<noteq> []" and "trim (last r) = last r"
    and "startIndex st = length pre"
  shows "map_option (after_loop (pre @ join_commas r)) (parse_loop (pre @ join_commas r) st) =
     Some (records st @ [currentRecord st @ r])"
  using assms
proof (induction r arbitrary: pre st rule: join_commas.induct)
  case 1
  then show ?case by simp
next
  case (2 f)
  let ?s = "pre @ join_commas [f]"
  from "2.prems" have f: "f \<noteq> []" "trim f = f" "plain_field f" by simp_all
  have "\<forall>c \<in> set (drop (startIndex st) ?s). \<not> delimiter c"
    using plain_field_no_delimiter [OF f(3)] "2.prems"(6) by simp
  then have "loop_body ?s st = None" by (rule loop_body_no_delimiter)
  then have "parse_loop ?s st = Some st" by (subst parse_loop.simps) simp
  moreover have "after_loop ?s st = records st @ [currentRecord st @ [f]]"
    using f "2.prems"(6) by (simp add: after_loop_def substring_from_def)
  ultimately show ?case by simp
next
  case (3 f g fs)
  let ?rest = "join_commas (g # fs)"
  let ?s = "pre @ join_commas (f # g # fs)"
  let ?st1 = "pushed st f False (length pre + length f + 1)"
  from "3.prems" have f: "plain_field f" and g: "g = [] \<or> hd g \<noteq> space" by simp_all
  have "loop_body (pre @ f @ comma # ?rest) st =
      Some (pushed st f (comma \<noteq> comma)
        (length pre + length f + 1 + length (takeWhile (\<lambda>x. x = space) ?rest)))"
    using "3.prems"(6) plain_field_no_delimiter [OF f] plain_field_hd [OF f]
    by (intro loop_body_unquoted_field) simp_all
  then have step: "loop_body ?s st = Some ?st1"
    using join_commas_no_leading_space [OF g, of fs] by simp
  have s: "?s = (pre @ f @ [comma]) @ ?rest" by simp
  have "map_option (after_loop ((pre @ f @ [comma]) @ ?rest))
        (parse_loop ((pre @ f @ [comma]) @ ?rest) ?st1) =
      Some (records ?st1 @ [currentRecord ?st1 @ g # fs])"
    using "3.prems" by (intro "3.IH") simp_all
  then have "map_option (after_loop ?s) (parse_loop ?s ?st1) =
      Some (records st @ [currentRecord st @ f # g # fs])"
    unfolding s by (simp add: pushed_def)
  moreover have "parse_loop ?s st = parse_loop ?s ?st1"
    using step by (subst parse_loop.simps) simp
  ultimately show ?case by simp
qed

subsection \<open>Quoted fields that are read back\<close>

lemma quote_before_delimiter_Cons:
  "ys \<noteq> [] \<Longrightarrow>
     quote_before_delimiter (x # ys) =
       ((x = dquote \<and> delimiter (hd ys)) \<or> quote_before_delimiter ys)"
  by (cases ys) auto

lemma quote_before_delimiter_appendI:
  "delimiter b \<Longrightarrow> quote_before_delimiter (u @ dquote # b # v)"
  by (induction u) (simp_all add: quote_before_delimiter_Cons)

lemma hd_double_quotes: "hd (double_quotes t @ [dquote]) = hd (t @ [dquote])"
  by (cases t) auto

lemma double_quotes_closed:
  "\<not> quote_before_delimiter t \<Longrightarrow> \<not> quote_before_delimiter (double_quotes t @ [dquote])"
proof (induction t)
  case Nil
  then show ?case by simp
next
  case (Cons c t)
  have ne: "double_quotes t @ [dquote] \<noteq> []" by simp
  from Cons.prems have tail: "\<not> quote_before_delimiter t"
    by (cases t) auto
  from Cons.prems have hd: "c = dquote \<longrightarrow> \<not> delimiter (hd (t @ [dquote]))"
    by (cases t) auto
  show ?case
  proof (cases "c = dquote")
    case True
    have "quote_before_delimiter (dquote # dquote # double_quotes t @ [dquote]) =
        quote_before_delimiter (dquote # double_quotes t @ [dquote])"
      by simp
    also have "\<dots> = (delimiter (hd (double_quotes t @ [dquote])) \<or>
        quote_before_delimiter (double_quotes t @ [dquote]))"
      using quote_before_delimiter_Cons [OF ne, of dquote] by simp
    finally show ?thesis
      using True hd Cons.IH [OF tail] by (simp add: hd_double_quotes)
  next
    case False
    then show ?thesis
      using quote_before_delimiter_Cons [OF ne, of c] Cons.IH [OF tail] by simp
  qed
qed

lemma quoted_text_closed:
  assumes "\<not> quote_before_delimiter t" and "t \<noteq> [] \<longrightarrow> \<not> delimiter (hd t)"
  shows "\<not> quote_before_delimiter (dquote # double_quotes t @ [dquote])"
proof -
  have "\<not> delimiter (hd (t @ [dquote]))" using assms(2) by (cases t) auto
  then show ?thesis
    using quote_before_delimiter_Cons [of "double_quotes t @ [dquote]" dquote]
      double_quotes_closed [OF assms(1)]
    by (simp add: hd_double_quotes)
qed

lemma qFieldEndMarker_search_leftmost:
  "qFieldEndMarker_search xs = Some (k, w, g) \<Longrightarrow> j < k \<Longrightarrow>
     qFieldEndMarker_at (drop j xs) = None"
proof (induction xs arbitrary: k j)
  case Nil
  then show ?case by simp
next
  case (Cons c cs)
  from Cons.prems have none: "qFieldEndMarker_at (c # cs) = None"
    by (auto split: option.splits)
  with Cons.prems obtain k' where k': "k = Suc k'" "qFieldEndMarker_search cs = Some (k', w, g)"
    by (auto split: option.splits)
  show ?case
  proof (cases j)
    case 0
    with none show ?thesis by simp
  next
    case (Suc j')
    with Cons.prems(2) k'(1) have "j' < k'" by simp
    from Cons.IH [OF k'(2) this] Suc show ?thesis by simp
  qed
qed

lemma qFieldEndMarker_search_finds:
  "qFieldEndMarker_at (drop j xs) \<noteq> None \<Longrightarrow> qFieldEndMarker_search xs \<noteq> None"
proof (induction xs arbitrary: j)
  case Nil
  then show ?case by simp
next
  case (Cons c cs)
  show ?case
  proof (cases j)
    case 0
    with Cons.prems show ?thesis by (auto split: option.splits)
  next
    case (Suc j')
    with Cons.prems have "qFieldEndMarker_at (drop j' cs) \<noteq> None" by simp
    from Cons.IH [OF this] show ?thesis by (auto split: option.splits)
  qed
qed

lemma qFieldEndMarker_search_quoted_text:
  assumes "\<not> quote_before_delimiter t" and "t \<noteq> [] \<longrightarrow> \<not> delimiter (hd t)"
    and "delimiter d"
  shows "\<exists>k w. qFieldEndMarker_search (dquote # double_quotes t @ dquote # d # rest) =
       Some (k, w, d # takeWhile (\<lambda>x. x = space) rest) \<and>
     k + length w = length (double_quotes t) + 3 + length (takeWhile (\<lambda>x. x = space) rest)"
proof -
  let ?Y = "dquote # double_quotes t @ [dquote]"
  let ?xs = "dquote # double_quotes t @ dquote # d # rest"
  let ?L = "length (double_quotes t)"
  have xs: "?xs = ?Y @ d # rest" by simp
  have closed: "\<not> quote_before_delimiter ?Y" by (rule quoted_text_closed [OF assms(1,2)])
  have at_close: "drop (Suc ?L) ?xs = dquote # d # rest" by simp
  have "qFieldEndMarker_at (dquote # d # rest) \<noteq> None"
    using assms(3) by (auto simp: delimiter_def)
  with at_close have found: "qFieldEndMarker_at (drop (Suc ?L) ?xs) \<noteq> None" by simp
  from qFieldEndMarker_search_finds [OF found] obtain k w g where
    search: "qFieldEndMarker_search ?xs = Some (k, w, g)"
    by auto
  from qFieldEndMarker_search_Some [OF search] obtain n d' rest' where
    dr: "drop k ?xs = replicate (2 * n + 1) dquote @ d' # rest'" and d': "delimiter d'"
    and g: "g = d' # takeWhile (\<lambda>x. x = space) rest'"
    and w: "w = replicate (2 * n + 1) dquote @ g"
    by blast
  have k_le: "k \<le> Suc ?L"
  proof (rule ccontr)
    assume "\<not> k \<le> Suc ?L"
    then have "Suc ?L < k" by simp
    from qFieldEndMarker_search_leftmost [OF search this] found show False by simp
  qed
  define u where "u = take k ?xs @ replicate (2 * n) dquote"
  have xs_split: "?xs = u @ dquote # d' # rest'"
  proof -
    have "?xs = take k ?xs @ drop k ?xs" by simp
    also have "drop k ?xs = replicate (2 * n) dquote @ dquote # d' # rest'"
      unfolding dr by (simp add: replicate_append_same)
    finally show ?thesis unfolding u_def by simp
  qed
  have len_u: "length u = k + 2 * n"
    unfolding u_def using k_le by simp
  have u_quotes: "u ! m = dquote" if "k \<le> m" "m < length u" for m
  proof -
    from that have "u ! m = replicate (2 * n) dquote ! (m - k)"
      unfolding u_def using k_le by (simp add: nth_append)
    moreover from that have "m - k < 2 * n" using len_u by arith
    ultimately show ?thesis by simp
  qed
  have not_less: "\<not> length u < Suc ?L"
  proof
    assume "length u < Suc ?L"
    then have le: "length u + 2 \<le> length ?Y" by simp
    have "?Y = take (length ?Y) (?Y @ d # rest)" by simp
    also have "?Y @ d # rest = u @ dquote # d' # rest'"
      using xs_split by simp
    also have "take (length ?Y) (u @ dquote # d' # rest') =
        u @ dquote # d' # take (length ?Y - length u - 2) rest'"
      using le by (simp add: take_Cons' numeral_2_eq_2)
    finally have eq: "?Y = u @ dquote # d' # take (length ?Y - length u - 2) rest'" .
    have "quote_before_delimiter
        (u @ dquote # d' # take (length ?Y - length u - 2) rest')"
      by (rule quote_before_delimiter_appendI [OF d'])
    then have "quote_before_delimiter ?Y" by (subst eq)
    with closed show False by simp
  qed
  have not_greater: "\<not> Suc ?L < length u"
  proof
    assume gt: "Suc ?L < length u"
    have d_at: "(?Y @ d # rest) ! Suc (Suc ?L) = d"
      by (simp add: nth_append)
    have same: "(?Y @ d # rest) ! Suc (Suc ?L) = (u @ dquote # d' # rest') ! Suc (Suc ?L)"
      using xs_split by simp
    have "(u @ dquote # d' # rest') ! Suc (Suc ?L) = dquote"
    proof (cases "Suc (Suc ?L) = length u")
      case True
      then show ?thesis by (simp add: nth_append)
    next
      case False
      with gt have lt: "Suc (Suc ?L) < length u" by simp
      moreover have "k \<le> Suc (Suc ?L)" using k_le by simp
      ultimately have "u ! Suc (Suc ?L) = dquote" by (intro u_quotes)
      with lt show ?thesis by (simp add: nth_append)
    qed
    with d_at same have "d = dquote" by simp
    with assms(3) show False by simp
  qed
  from not_less not_greater have len_eq: "length u = Suc ?L" by simp
  have "?Y @ d # rest = (u @ [dquote]) @ d' # rest'"
    using xs_split by simp
  moreover have "length ?Y = length (u @ [dquote])" using len_eq by simp
  ultimately have "d # rest = d' # rest'"
    using append_eq_append_conv [of ?Y "u @ [dquote]" "d # rest" "d' # rest'"] by blast
  then have "d = d'" "rest = rest'" by simp_all
  with g w len_u len_eq search show ?thesis
    by (intro exI [of _ k] exI [of _ w]) simp
qed

text \<open>
  A quoted field written as CSV asks: the text with each quote doubled, between two quotes,
  then a delimiter. When the text does not start with a delimiter and no quote in it stands
  directly before a delimiter, one iteration reads the text back, delimiters and quotes
  included.
\<close>

lemma loop_body_quoted_field:
  assumes "startIndex st = length pre"
    and "\<not> quote_before_delimiter t" and "t \<noteq> [] \<longrightarrow> \<not> delimiter (hd t)"
    and "delimiter d"
  shows "loop_body (pre @ dquote # double_quotes t @ dquote # d # rest) st =
     Some (pushed st t (d \<noteq> comma)
       (length pre + length (double_quotes t) + 3 + length (takeWhile (\<lambda>x. x = space) rest)))"
proof -
  let ?s = "pre @ dquote # double_quotes t @ dquote # d # rest"
  let ?g = "d # takeWhile (\<lambda>x. x = space) rest"
  have q: "charAt ?s (startIndex st) = [dquote]"
    using assms(1) by (simp add: charAt_def)
  from qFieldEndMarker_search_quoted_text [OF assms(2-4), of rest] obtain k w where
    search: "qFieldEndMarker_search (dquote # double_quotes t @ dquote # d # rest) =
       Some (k, w, ?g)"
    and kw: "k + length w = length (double_quotes t) + 3 + length (takeWhile (\<lambda>x. x = space) rest)"
    by blast
  have dr: "drop (startIndex st) ?s = dquote # double_quotes t @ dquote # d # rest"
    using assms(1) by simp
  have len: "k + length w - length ?g = length (double_quotes t) + 2"
    using kw by simp
  have inner: "take (length (double_quotes t)) (drop (Suc (startIndex st)) ?s) = double_quotes t"
    using assms(1) by simp
  show ?thesis
    unfolding loop_body_quoted [OF q] dr search
    using len inner kw assms(1)
    by (simp add: replace_quote_pairs_double_quotes add.assoc)
qed

subsection \<open>What parseCSV returns\<close>

lemma iterations_parse_loop:
  "iterations n s st0 = Some st \<Longrightarrow> loop_body s st = None \<Longrightarrow> parse_loop s st0 = Some st"
proof (induction n arbitrary: st0)
  case 0
  then show ?case by (subst parse_loop.simps) simp
next
  case (Suc n)
  from Suc.prems(1) obtain st1 where
    st1: "loop_body s st0 = Some st1" "iterations n s st1 = Some st"
    by (auto split: option.splits)
  from Suc.IH [OF st1(2) Suc.prems(2)] st1(1) show ?case
    by (subst parse_loop.simps) simp
qed

lemma parseCSV_result:
  assumes "iterations n s \<lparr>startIndex = 0, records = [], currentRecord = []\<rparr> = Some st"
    and "loop_body s st = None"
  shows "parseCSV s = Some
     (if startIndex st < length s \<and> trim (drop (startIndex st) s) \<noteq> []
      then records st @ [currentRecord st @ [trim (drop (startIndex st) s)]]
      else if currentRecord st \<noteq> [] then records st @ [currentRecord st]
      else records st)"
proof -
  have "min (startIndex st) (length s) = startIndex st" if "startIndex st < length s"
    using that by simp
  with iterations_parse_loop [OF assms] show ?thesis
    by (auto simp: parseCSV_def after_loop_def substring_from_def Let_def)
qed

lemma dropWhile_dropWhile_weaker:
  "(\<And>x. P x \<Longrightarrow> Q x) \<Longrightarrow> dropWhile Q (dropWhile P xs) = dropWhile Q xs"
  by (induction xs) auto

lemma trim_dropWhile_space: "trim (dropWhile (\<lambda>x. x = space) g) = trim g"
proof -
  have "dropWhile white_space (dropWhile (\<lambda>x. x = space) g) = dropWhile white_space g"
    by (rule dropWhile_dropWhile_weaker) (simp add: white_space_def)
  then show ?thesis by (simp add: trim_def)
qed

lemma trim_Nil [simp]: "trim [] = []"
  by (simp add: trim_def)

lemma takeWhile_replicate_space:
  "takeWhile (\<lambda>x. x = space) (replicate k space @ g) =
     replicate k space @ takeWhile (\<lambda>x. x = space) g"
  by (induction k) simp_all

lemma drop_marker_spaces:
  "drop (length (takeWhile (\<lambda>x. x = space) g)) g = dropWhile (\<lambda>x. x = space) g"
  by (induction g) simp_all

text \<open>One field ended by a marker, then text without a delimiter.\<close>

lemma parseCSV_one_marker:
  assumes body: "loop_body (h @ replicate k space @ g)
        \<lparr>startIndex = 0, records = [], currentRecord = []\<rparr> =
      Some (pushed \<lparr>startIndex = 0, records = [], currentRecord = []\<rparr> fld ends
        (length h + k + length (takeWhile (\<lambda>x. x = space) g)))"
    and g: "\<forall>c \<in> set g. \<not> delimiter c"
  shows "parseCSV (h @ replicate k space @ g) = Some
     (if ends then [fld] # (if trim g = [] then [] else [[trim g]])
      else [fld # (if trim g = [] then [] else [trim g])])"
proof -
  let ?s = "h @ replicate k space @ g"
  let ?init = "\<lparr>startIndex = 0, records = [], currentRecord = []\<rparr>"
  let ?idx = "length h + k + length (takeWhile (\<lambda>x. x = space) g)"
  let ?st = "pushed ?init fld ends ?idx"
  have dr: "drop ?idx ?s = dropWhile (\<lambda>x. x = space) g"
    by (simp add: drop_marker_spaces)
  have "\<forall>c \<in> set (drop (startIndex ?st) ?s). \<not> delimiter c"
    using g unfolding startIndex_pushed dr by (auto dest: set_dropWhileD)
  then have none: "loop_body ?s ?st = None" by (rule loop_body_no_delimiter)
  have it: "iterations 1 ?s ?init = Some ?st"
    using body by (simp add: One_nat_def)
  have lt: "startIndex ?st < length ?s \<longleftrightarrow> dropWhile (\<lambda>x. x = space) g \<noteq> []"
  proof -
    have "length (drop ?idx ?s) = length ?s - ?idx" by simp
    then show ?thesis unfolding startIndex_pushed dr [symmetric]
      by (metis length_greater_0_conv zero_less_diff)
  qed
  have tr: "trim (drop (startIndex ?st) ?s) = trim g"
    unfolding startIndex_pushed dr by (rule trim_dropWhile_space)
  have empty: "trim g = []" if a: "dropWhile (\<lambda>x. x = space) g = []"
  proof -
    have "trim g = trim (dropWhile (\<lambda>x. x = space) g)"
      by (simp only: trim_dropWhile_space)
    also have "\<dots> = trim []" by (simp only: a)
    finally show ?thesis by simp
  qed
  show ?thesis
    unfolding parseCSV_result [OF it none] tr lt
    using empty by (auto simp: pushed_def)
qed

lemma parseCSV_unquoted_then_text:
  assumes "\<forall>c \<in> set f. \<not> delimiter c" and "f \<noteq> [] \<longrightarrow> hd f \<noteq> dquote"
    and "delimiter d" and "\<forall>c \<in> set g. \<not> delimiter c"
  shows "parseCSV (f @ d # replicate k space @ g) = Some
     (if d \<noteq> comma then [f] # (if trim g = [] then [] else [[trim g]])
      else [f # (if trim g = [] then [] else [trim g])])"
proof -
  let ?init = "\<lparr>startIndex = 0, records = [], currentRecord = []\<rparr>"
  let ?h = "f @ [d]"
  have step: "loop_body ([] @ f @ d # replicate k space @ g) ?init =
      Some (pushed ?init f (d \<noteq> comma)
        (length ([]::jsstring) + length f + 1 +
         length (takeWhile (\<lambda>x. x = space) (replicate k space @ g))))"
    using assms(1-3) by (intro loop_body_unquoted_field) simp_all
  have text_eq: "?h @ replicate k space @ g = [] @ f @ d # replicate k space @ g"
    by simp
  have idx_eq: "length ?h + k + length (takeWhile (\<lambda>x. x = space) g) =
      length ([]::jsstring) + length f + 1 +
         length (takeWhile (\<lambda>x. x = space) (replicate k space @ g))"
    by (simp add: takeWhile_replicate_space)
  have "loop_body (?h @ replicate k space @ g) ?init =
      Some (pushed ?init f (d \<noteq> comma)
        (length ?h + k + length (takeWhile (\<lambda>x. x = space) g)))"
    by (simp only: text_eq idx_eq step)
  from parseCSV_one_marker [OF this assms(4)] show ?thesis by simp
qed

lemma parseCSV_quoted_then_text:
  assumes "\<not> quote_before_delimiter t" and "t \<noteq> [] \<longrightarrow> \<not> delimiter (hd t)"
    and "delimiter d" and "\<forall>c \<in> set g. \<not> delimiter c"
  shows "parseCSV (dquote # double_quotes t @ dquote # d # replicate k space @ g) = Some
     (if d \<noteq> comma then [t] # (if trim g = [] then [] else [[trim g]])
      else [t # (if trim g = [] then [] else [trim g])])"
proof -
  let ?init = "\<lparr>startIndex = 0, records = [], currentRecord = []\<rparr>"
  let ?h = "dquote # double_quotes t @ [dquote, d]"
  have step: "loop_body ([] @ dquote # double_quotes t @ dquote # d # replicate k space @ g)
        ?init =
      Some (pushed ?init t (d \<noteq> comma)
        (length ([]::jsstring) + length (double_quotes t) + 3 +
         length (takeWhile (\<lambda>x. x = space) (replicate k space @ g))))"
    using assms(1-3) by (intro loop_body_quoted_field) simp_all
  have text_eq: "?h @ replicate k space @ g =
      [] @ dquote # double_quotes t @ dquote # d # replicate k space @ g"
    by simp
  have idx_eq: "length ?h + k + length (takeWhile (\<lambda>x. x = space) g) =
      length ([]::jsstring) + length (double_quotes t) + 3 +
         length (takeWhile (\<lambda>x. x = space) (replicate k space @ g))"
    by (simp add: takeWhile_replicate_space)
  have "loop_body (?h @ replicate k space @ g) ?init =
      Some (pushed ?init t (d \<noteq> comma)
        (length ?h + k + length (takeWhile (\<lambda>x. x = space) g)))"
    by (simp only: text_eq idx_eq step)
  from parseCSV_one_marker [OF this assms(4)] show ?thesis by simp
qed

lemma double_quotes_no_quote: "dquote \<notin> set t \<Longrightarrow> double_quotes t = t"
  by (induction t) auto

lemma no_quote_before_delimiter: "dquote \<notin> set t \<Longrightarrow> \<not> quote_before_delimiter t"
  by (induction t rule: quote_before_delimiter.induct) auto

section \<open>Properties of parseCSV\<close>

text \<open>The examples of the specification, computed by the model.\<close>

lemma parseCSV_examples:
  "parseCSV (js []) = Some []"
  "parseCSV (js ''a,b,c'') = Some [[js ''a'', js ''b'', js ''c'']]"
  "parseCSV (js ''a,b,c\<newline>'') = Some [[js ''a'', js ''b'', js ''c'']]"
  "parseCSV (js ''a,b\<newline>c,d'') = Some [[js ''a'', js ''b''], [js ''c'', js ''d'']]"
  "parseCSV (js ''a,,c'') = Some [[js ''a'', [], js ''c'']]"
  "parseCSV (js ''onlyfield'') = Some [[js ''onlyfield'']]"
  by code_simp+

text \<open>
  C1, as stated. Three records that parseCSV returns, each with plain fields only, that do
  not come back from their comma-joined text: the space at the end of the last field is
  trimmed; an empty last field is not read at all; the space that starts a later field
  goes with the marker.
\<close>

theorem rejoined_record_changes:
  "parseCSV (js ''a,b \<newline>'') = Some [[js ''a'', js ''b '']] \<and>
   list_all plain_field [js ''a'', js ''b ''] \<and>
   parseCSV (join_commas [js ''a'', js ''b '']) = Some [[js ''a'', js ''b'']] \<and>
   parseCSV (join_commas [js ''a'', js ''b '']) \<noteq> Some [[js ''a'', js ''b '']] \<and>
   parseCSV (js ''a,\<newline>'') = Some [[js ''a'', []]] \<and>
   list_all plain_field [js ''a'', []] \<and>
   parseCSV (join_commas [js ''a'', []]) = Some [[js ''a'']] \<and>
   parseCSV (join_commas [js ''a'', []]) \<noteq> Some [[js ''a'', []]] \<and>
   parseCSV (js ''a,\" b\",c'') = Some [[js ''a'', js '' b'', js ''c'']] \<and>
   list_all plain_field [js ''a'', js '' b'', js ''c''] \<and>
   parseCSV (join_commas [js ''a'', js '' b'', js ''c'']) = Some [[js ''a'', js ''b'', js ''c'']] \<and>
   parseCSV (join_commas [js ''a'', js '' b'', js ''c'']) \<noteq> Some [[js ''a'', js '' b'', js ''c'']]"
  by code_simp

text \<open>
  C1, amended. Let \<open>r\<close> be a record that parseCSV returns on some input, with no comma,
  quote, carriage return or line feed in any field. If moreover no field after the first
  starts with a space, and the last field is not empty and has no white space at either
  end (trim leaves it as it is), then parsing the fields joined with commas returns
  exactly the record \<open>r\<close>.
\<close>

theorem rejoined_record_round_trip:
  assumes "parseCSV input = Some recs" and "r \<in> set recs"
    and "\<forall>f \<in> set r. plain_field f"
    and "\<forall>f \<in> set (tl r). f = [] \<or> hd f \<noteq> space"
    and "last r \<noteq> []" and "trim (last r) = last r"
  shows "parseCSV (join_commas r) = Some [r]"
proof -
  from parseCSV_Some_nonempty [OF assms(1)] assms(2) have "r \<noteq> []" by auto
  from parse_joined_record [OF this assms(3-6), of "\<lparr>startIndex = 0, records = [], currentRecord = []\<rparr>" "[]"]
  show ?thesis by (auto simp: parseCSV_def split: option.splits)
qed

theorem rejoined_record_round_trip_witness:
  "parseCSV (js ''x y, z\<newline>a,b \<newline>'') = Some [[js ''x y'', js ''z''], [js ''a'', js ''b '']] \<and>
   parseCSV (join_commas [js ''x y'', js ''z'']) = Some [[js ''x y'', js ''z'']]"
proof -
  let ?r = "[js ''x y'', js ''z'']"
  have p: "parseCSV (js ''x y, z\<newline>a,b \<newline>'') = Some [?r, [js ''a'', js ''b '']]"
    by code_simp
  have m: "?r \<in> set [?r, [js ''a'', js ''b '']]" by simp
  have plain: "\<forall>f \<in> set ?r. plain_field f" by code_simp
  have lead: "\<forall>f \<in> set (tl ?r). f = [] \<or> hd f \<noteq> space" by code_simp
  have l: "last ?r \<noteq> []" "trim (last ?r) = last ?r" by code_simp+
  from rejoined_record_round_trip [OF p m plain lead l] p show ?thesis by simp
qed

text \<open>
  C2, as stated. In \<^verbatim>\<open>a,"x""y"\<close> the second field is quoted and holds a pair of
  quotes; no marker follows it, and the output field is the raw text, pair and outer
  quotes included, not \<^verbatim>\<open>x"y\<close>. The same holds for \<^verbatim>\<open>"x""y"\<close> alone.
\<close>

theorem quoted_field_at_end_not_unescaped:
  "parseCSV (js ''a,\"x\"\"y\"'') = Some [[js ''a'', js ''\"x\"\"y\"'']] \<and>
   parseCSV (js ''a,\"x\"\"y\"'') \<noteq> Some [[js ''a'', js ''x\"y'']] \<and>
   parseCSV (js ''\"x\"\"y\"'') = Some [[js ''\"x\"\"y\"'']] \<and>
   parseCSV (js ''\"x\"\"y\"'') \<noteq> Some [[js ''x\"y'']]"
  by code_simp

text \<open>
  C2, amended. \<^verbatim>\<open>a,"say ""hi""",b\<close> parses to the three fields \<^verbatim>\<open>a\<close>,
  \<^verbatim>\<open>say "hi"\<close>, \<^verbatim>\<open>b\<close>. The statement then has six parts.
  \<^item> An iteration in Quoted mode that finds a marker, with the marker's closing quote at
    \<open>c\<close> after the opening quote, pushes one field: the text between the two quotes with
    every pair of quotes, taken from left to right, replaced by one quote.
  \<^item> An iteration in Unquoted mode pushes the text from the cursor to the first delimiter
    verbatim.
  \<^item> On every input, when the loop has left with the variables \<open>fin\<close>, parseCSV returns
    the records of \<open>fin\<close> and its current record, the latter extended by the text from the
    cursor on, trimmed and otherwise raw, when that text is there and not blank; nothing is
    replaced in it, whether or not it starts with a quote or comes after markers.
  \<^item> The loop does leave, after at most \<open>length s\<close> iterations that found a marker.
  \<^item> A text \<open>t\<close> that does not start with a delimiter and has no quote directly before a
    delimiter, written with each quote doubled between two quotes and followed by a
    delimiter, is read back as \<open>t\<close> by the iteration whose cursor is at the opening quote,
    and parseCSV returns it as the first field when only text without a delimiter follows.
  \<^item> An unquoted first field \<open>f\<close> followed by a delimiter and text without a delimiter
    is returned verbatim, pairs of quotes included.
\<close>

theorem quoted_fields_unescaped:
  "parseCSV (js ''a,\"say \"\"hi\"\"\",b'') = Some [[js ''a'', js ''say \"hi\"'', js ''b'']] \<and>
   (charAt s (startIndex st) = [dquote] \<and> loop_body s st = Some st' \<longrightarrow>
      (\<exists>c. startIndex st \<le> c \<and> Suc c < length s \<and> s ! c = dquote \<and> delimiter (s ! Suc c) \<and>
         (startIndex st < c \<longrightarrow>
            st' = pushed st
              (replace_quote_pairs (take (c - Suc (startIndex st)) (drop (Suc (startIndex st)) s)))
              (s ! Suc c \<noteq> comma)
              (c + 2 + length (takeWhile (\<lambda>x. x = space) (drop (c + 2) s)))))) \<and>
   (charAt s (startIndex st) \<noteq> [dquote] \<and> loop_body s st = Some st' \<longrightarrow>
      (\<exists>d. startIndex st \<le> d \<and> d < length s \<and> delimiter (s ! d) \<and>
         (\<forall>j. startIndex st \<le> j \<and> j < d \<longrightarrow> \<not> delimiter (s ! j)) \<and>
         st' = pushed st (take (d - startIndex st) (drop (startIndex st) s)) (s ! d \<noteq> comma)
           (Suc d + length (takeWhile (\<lambda>x. x = space) (drop (Suc d) s))))) \<and>
   (iterations n s \<lparr>startIndex = 0, records = [], currentRecord = []\<rparr> = Some fin \<and>
    loop_body s fin = None \<longrightarrow>
      parseCSV s = Some
        (if startIndex fin < length s \<and> trim (drop (startIndex fin) s) \<noteq> []
         then records fin @ [currentRecord fin @ [trim (drop (startIndex fin) s)]]
         else if currentRecord fin \<noteq> [] then records fin @ [currentRecord fin]
         else records fin)) \<and>
   (\<exists>m stop. m \<le> length s \<and>
      iterations m s \<lparr>startIndex = 0, records = [], currentRecord = []\<rparr> = Some stop \<and>
      loop_body s stop = None) \<and>
   (\<not> quote_before_delimiter t \<and> (t \<noteq> [] \<longrightarrow> \<not> delimiter (hd t)) \<and> delimiter d \<longrightarrow>
      (startIndex st = length pre \<longrightarrow>
         loop_body (pre @ dquote # double_quotes t @ dquote # d # rest) st =
           Some (pushed st t (d \<noteq> comma)
             (length pre + length (double_quotes t) + 3 +
              length (takeWhile (\<lambda>x. x = space) rest)))) \<and>
      ((\<forall>c \<in> set g. \<not> delimiter c) \<longrightarrow>
         parseCSV (dquote # double_quotes t @ dquote # d # replicate k space @ g) = Some
           (if d \<noteq> comma then [t] # (if trim g = [] then [] else [[trim g]])
            else [t # (if trim g = [] then [] else [trim g])]))) \<and>
   ((\<forall>c \<in> set f. \<not> delimiter c) \<and> (f \<noteq> [] \<longrightarrow> hd f \<noteq> dquote) \<and> delimiter d \<and>
    (\<forall>c \<in> set g. \<not> delimiter c) \<longrightarrow>
      parseCSV (f @ d # replicate k space @ g) = Some
        (if d \<noteq> comma then [f] # (if trim g = [] then [] else [[trim g]])
         else [f # (if trim g = [] then [] else [trim g])]))"
proof (intro conjI impI)
  show "parseCSV (js ''a,\"say \"\"hi\"\"\",b'') = Some [[js ''a'', js ''say \"hi\"'', js ''b'']]"
    by code_simp
next
  assume "charAt s (startIndex st) = [dquote] \<and> loop_body s st = Some st'"
  then have q: "charAt s (startIndex st) = [dquote]" and b: "loop_body s st = Some st'"
    by simp_all
  from loop_body_quoted_Some [OF q b] obtain c where
    c: "startIndex st \<le> c" "Suc c < length s" "s ! c = dquote" "delimiter (s ! Suc c)"
    and st': "st' = pushed st
       (if c = startIndex st then [dquote]
        else replace_quote_pairs (take (c - Suc (startIndex st)) (drop (Suc (startIndex st)) s)))
       (s ! Suc c \<noteq> comma)
       (c + 2 + length (takeWhile (\<lambda>x. x = space) (drop (c + 2) s)))"
    by blast
  have "startIndex st < c \<longrightarrow>
      st' = pushed st
        (replace_quote_pairs (take (c - Suc (startIndex st)) (drop (Suc (startIndex st)) s)))
        (s ! Suc c \<noteq> comma)
        (c + 2 + length (takeWhile (\<lambda>x. x = space) (drop (c + 2) s)))"
    unfolding st' by simp
  with c show "\<exists>c. startIndex st \<le> c \<and> Suc c < length s \<and> s ! c = dquote \<and>
      delimiter (s ! Suc c) \<and>
      (startIndex st < c \<longrightarrow>
         st' = pushed st
           (replace_quote_pairs (take (c - Suc (startIndex st)) (drop (Suc (startIndex st)) s)))
           (s ! Suc c \<noteq> comma)
           (c + 2 + length (takeWhile (\<lambda>x. x = space) (drop (c + 2) s))))"
    by blast
next
  assume "charAt s (startIndex st) \<noteq> [dquote] \<and> loop_body s st = Some st'"
  then have q: "charAt s (startIndex st) \<noteq> [dquote]" and b: "loop_body s st = Some st'"
    by simp_all
  from loop_body_unquoted_Some [OF q b]
  show "\<exists>d. startIndex st \<le> d \<and> d < length s \<and> delimiter (s ! d) \<and>
      (\<forall>j. startIndex st \<le> j \<and> j < d \<longrightarrow> \<not> delimiter (s ! j)) \<and>
      st' = pushed st (take (d - startIndex st) (drop (startIndex st) s)) (s ! d \<noteq> comma)
        (Suc d + length (takeWhile (\<lambda>x. x = space) (drop (Suc d) s)))" .
next
  assume "iterations n s \<lparr>startIndex = 0, records = [], currentRecord = []\<rparr> = Some fin \<and>
    loop_body s fin = None"
  then have it: "iterations n s \<lparr>startIndex = 0, records = [], currentRecord = []\<rparr> = Some fin"
    and none: "loop_body s fin = None"
    by simp_all
  from parseCSV_result [OF it none]
  show "parseCSV s = Some
        (if startIndex fin < length s \<and> trim (drop (startIndex fin) s) \<noteq> []
         then records fin @ [currentRecord fin @ [trim (drop (startIndex fin) s)]]
         else if currentRecord fin \<noteq> [] then records fin @ [currentRecord fin]
         else records fin)" .
next
  from parse_loop_iterations [of s "\<lparr>startIndex = 0, records = [], currentRecord = []\<rparr>"]
  show "\<exists>m stop. m \<le> length s \<and>
      iterations m s \<lparr>startIndex = 0, records = [], currentRecord = []\<rparr> = Some stop \<and>
      loop_body s stop = None"
    by auto
next
  assume "\<not> quote_before_delimiter t \<and> (t \<noteq> [] \<longrightarrow> \<not> delimiter (hd t)) \<and> delimiter d"
    and "startIndex st = length pre"
  then show "loop_body (pre @ dquote # double_quotes t @ dquote # d # rest) st =
      Some (pushed st t (d \<noteq> comma)
        (length pre + length (double_quotes t) + 3 + length (takeWhile (\<lambda>x. x = space) rest)))"
    by (intro loop_body_quoted_field) simp_all
next
  assume "\<not> quote_before_delimiter t \<and> (t \<noteq> [] \<longrightarrow> \<not> delimiter (hd t)) \<and> delimiter d"
    and "\<forall>c \<in> set g. \<not> delimiter c"
  then show "parseCSV (dquote # double_quotes t @ dquote # d # replicate k space @ g) = Some
      (if d \<noteq> comma then [t] # (if trim g = [] then [] else [[trim g]])
       else [t # (if trim g = [] then [] else [trim g])])"
    by (intro parseCSV_quoted_then_text) simp_all
next
  assume "(\<forall>c \<in> set f. \<not> delimiter c) \<and> (f \<noteq> [] \<longrightarrow> hd f \<noteq> dquote) \<and> delimiter d \<and>
    (\<forall>c \<in> set g. \<not> delimiter c)"
  then show "parseCSV (f @ d # replicate k space @ g) = Some
      (if d \<noteq> comma then [f] # (if trim g = [] then [] else [[trim g]])
       else [f # (if trim g = [] then [] else [trim g])])"
    by (intro parseCSV_unquoted_then_text) simp_all
qed

theorem quoted_fields_unescaped_witness:
  "loop_body (js ''a,\"b\"\"c\",d\"\"e,'')
       \<lparr>startIndex = 2, records = [], currentRecord = [js ''a'']\<rparr> =
     Some \<lparr>startIndex = 9, records = [], currentRecord = [js ''a'', js ''b\"c'']\<rparr> \<and>
   (\<exists>c. 2 < c \<and> js ''a,\"b\"\"c\",d\"\"e,'' ! c = dquote \<and>
      \<lparr>startIndex = 9, records = [], currentRecord = [js ''a'', js ''b\"c'']\<rparr> =
        pushed \<lparr>startIndex = 2, records = [], currentRecord = [js ''a'']\<rparr>
          (replace_quote_pairs (take (c - 3) (drop 3 (js ''a,\"b\"\"c\",d\"\"e,''))))
          (js ''a,\"b\"\"c\",d\"\"e,'' ! Suc c \<noteq> comma)
          (c + 2 +
           length (takeWhile (\<lambda>x. x = space) (drop (c + 2) (js ''a,\"b\"\"c\",d\"\"e,''))))) \<and>
   loop_body (js ''a,\"b\"\"c\",d\"\"e,'')
       \<lparr>startIndex = 9, records = [], currentRecord = [js ''a'', js ''b\"c'']\<rparr> =
     Some \<lparr>startIndex = 14, records = [],
            currentRecord = [js ''a'', js ''b\"c'', js ''d\"\"e'']\<rparr> \<and>
   (\<exists>d. 9 \<le> d \<and> delimiter (js ''a,\"b\"\"c\",d\"\"e,'' ! d) \<and>
      \<lparr>startIndex = 14, records = [],
         currentRecord = [js ''a'', js ''b\"c'', js ''d\"\"e'']\<rparr> =
        pushed \<lparr>startIndex = 9, records = [], currentRecord = [js ''a'', js ''b\"c'']\<rparr>
          (take (d - 9) (drop 9 (js ''a,\"b\"\"c\",d\"\"e,'')))
          (js ''a,\"b\"\"c\",d\"\"e,'' ! d \<noteq> comma)
          (Suc d +
           length (takeWhile (\<lambda>x. x = space) (drop (Suc d) (js ''a,\"b\"\"c\",d\"\"e,''))))) \<and>
   iterations 1 (js ''a,\"x\"\"y\"'') \<lparr>startIndex = 0, records = [], currentRecord = []\<rparr> =
     Some \<lparr>startIndex = 2, records = [], currentRecord = [js ''a'']\<rparr> \<and>
   loop_body (js ''a,\"x\"\"y\"'') \<lparr>startIndex = 2, records = [], currentRecord = [js ''a'']\<rparr> =
     None \<and>
   parseCSV (js ''a,\"x\"\"y\"'') = Some [[js ''a'', js ''\"x\"\"y\"'']] \<and>
   parseCSV (js ''\"b,\"\"c\"\"!\",  z '') = Some [[js ''b,\"c\"!'', js ''z'']] \<and>
   parseCSV (js ''x\"\"y\<newline> \"q\"\"r'') = Some [[js ''x\"\"y''], [js ''\"q\"\"r'']]"
proof -
  let ?s = "js ''a,\"b\"\"c\",d\"\"e,''"
  let ?st = "\<lparr>startIndex = 2, records = [], currentRecord = [js ''a'']\<rparr>"
  let ?st' = "\<lparr>startIndex = 9, records = [], currentRecord = [js ''a'', js ''b\"c'']\<rparr>"
  let ?st'' = "\<lparr>startIndex = 14, records = [],
            currentRecord = [js ''a'', js ''b\"c'', js ''d\"\"e'']\<rparr>"
  let ?init = "\<lparr>startIndex = 0, records = [], currentRecord = []\<rparr>"
  have q: "charAt ?s (startIndex ?st) = [dquote]" by code_simp
  have b: "loop_body ?s ?st = Some ?st'" by code_simp
  have q': "charAt ?s (startIndex ?st') \<noteq> [dquote]" by code_simp
  have b': "loop_body ?s ?st' = Some ?st''" by code_simp
  have "\<exists>c. startIndex ?st \<le> c \<and> Suc c < length ?s \<and> ?s ! c = dquote \<and>
      delimiter (?s ! Suc c) \<and>
      (startIndex ?st < c \<longrightarrow>
         ?st' = pushed ?st
           (replace_quote_pairs (take (c - Suc (startIndex ?st)) (drop (Suc (startIndex ?st)) ?s)))
           (?s ! Suc c \<noteq> comma)
           (c + 2 + length (takeWhile (\<lambda>x. x = space) (drop (c + 2) ?s))))"
    using quoted_fields_unescaped
      [where s = ?s and st = ?st and st' = ?st', THEN conjunct2, THEN conjunct1] q b
    by blast
  then obtain c where
    c: "startIndex ?st \<le> c" "?s ! c = dquote" "delimiter (?s ! Suc c)"
      "startIndex ?st < c \<longrightarrow>
         ?st' = pushed ?st
           (replace_quote_pairs (take (c - Suc (startIndex ?st)) (drop (Suc (startIndex ?st)) ?s)))
           (?s ! Suc c \<noteq> comma)
           (c + 2 + length (takeWhile (\<lambda>x. x = space) (drop (c + 2) ?s)))"
    by blast
  have "c \<noteq> 2"
  proof
    assume "c = 2"
    with c(3) have "delimiter (?s ! 3)" by (simp add: numeral_3_eq_3)
    moreover have "\<not> delimiter (?s ! 3)" by code_simp
    ultimately show False by simp
  qed
  with c(1) have "2 < c" by simp
  with c have one: "\<exists>c. 2 < c \<and> ?s ! c = dquote \<and>
      ?st' = pushed ?st (replace_quote_pairs (take (c - 3) (drop 3 ?s)))
         (?s ! Suc c \<noteq> comma)
         (c + 2 + length (takeWhile (\<lambda>x. x = space) (drop (c + 2) ?s)))"
    by (intro exI [of _ c]) (simp add: numeral_3_eq_3)
  have "\<exists>d. startIndex ?st' \<le> d \<and> d < length ?s \<and> delimiter (?s ! d) \<and>
      (\<forall>j. startIndex ?st' \<le> j \<and> j < d \<longrightarrow> \<not> delimiter (?s ! j)) \<and>
      ?st'' = pushed ?st' (take (d - startIndex ?st') (drop (startIndex ?st') ?s))
        (?s ! d \<noteq> comma)
        (Suc d + length (takeWhile (\<lambda>x. x = space) (drop (Suc d) ?s)))"
    using quoted_fields_unescaped
      [where s = ?s and st = ?st' and st' = ?st'', THEN conjunct2, THEN conjunct2,
        THEN conjunct1] q' b'
    by blast
  then obtain d where
    d: "startIndex ?st' \<le> d" "delimiter (?s ! d)"
      "?st'' = pushed ?st' (take (d - startIndex ?st') (drop (startIndex ?st') ?s))
        (?s ! d \<noteq> comma)
        (Suc d + length (takeWhile (\<lambda>x. x = space) (drop (Suc d) ?s)))"
    by blast
  then have two: "\<exists>d. 9 \<le> d \<and> delimiter (?s ! d) \<and>
      ?st'' = pushed ?st' (take (d - 9) (drop 9 ?s)) (?s ! d \<noteq> comma)
        (Suc d + length (takeWhile (\<lambda>x. x = space) (drop (Suc d) ?s)))"
    by (intro exI [of _ d]) simp
  let ?u = "js ''a,\"x\"\"y\"''"
  have it: "iterations 1 ?u ?init = Some ?st" by code_simp
  have none: "loop_body ?u ?st = None" by code_simp
  have tail: "startIndex ?st < length ?u" "trim (drop (startIndex ?st) ?u) = js ''\"x\"\"y\"''"
    "js ''\"x\"\"y\"'' \<noteq> []"
    by code_simp+
  have "parseCSV ?u = Some
        (if startIndex ?st < length ?u \<and> trim (drop (startIndex ?st) ?u) \<noteq> []
         then records ?st @ [currentRecord ?st @ [trim (drop (startIndex ?st) ?u)]]
         else if currentRecord ?st \<noteq> [] then records ?st @ [currentRecord ?st]
         else records ?st)"
    using quoted_fields_unescaped
      [where s = ?u and n = 1 and fin = ?st, THEN conjunct2, THEN conjunct2, THEN conjunct2,
        THEN conjunct1] it none
    by blast
  then have three: "parseCSV ?u = Some [[js ''a'', js ''\"x\"\"y\"'']]"
    unfolding tail using tail(1,3) by simp
  let ?t = "js ''b,\"c\"!''"
  have t: "\<not> quote_before_delimiter ?t" "?t \<noteq> [] \<longrightarrow> \<not> delimiter (hd ?t)"
    "\<forall>c \<in> set (js ''z ''). \<not> delimiter c" "delimiter comma"
    by code_simp+
  have read: "dquote # double_quotes ?t @ dquote # comma # replicate 2 space @ js ''z '' =
      js ''\"b,\"\"c\"\"!\",  z ''"
    "trim (js ''z '') = js ''z''" "js ''z'' \<noteq> []"
    by code_simp+
  have "parseCSV (dquote # double_quotes ?t @ dquote # comma # replicate 2 space @ js ''z '') =
      Some (if comma \<noteq> comma then [?t] # (if trim (js ''z '') = [] then [] else [[trim (js ''z '')]])
         else [?t # (if trim (js ''z '') = [] then [] else [trim (js ''z '')])])"
    using quoted_fields_unescaped
      [where t = ?t and d = comma and g = "js ''z ''" and k = 2, THEN conjunct2, THEN conjunct2,
        THEN conjunct2, THEN conjunct2, THEN conjunct2, THEN conjunct1] t
    by blast
  then have four: "parseCSV (js ''\"b,\"\"c\"\"!\",  z '') = Some [[?t, js ''z'']]"
    unfolding read using read(3) by simp
  let ?f = "js ''x\"\"y''"
  let ?g = "js ''\"q\"\"r''"
  have f: "\<forall>c \<in> set ?f. \<not> delimiter c" "?f \<noteq> [] \<longrightarrow> hd ?f \<noteq> dquote"
    "\<forall>c \<in> set ?g. \<not> delimiter c" "delimiter LF" "LF \<noteq> comma"
    by code_simp+
  have verb: "?f @ LF # replicate 1 space @ ?g = js ''x\"\"y\<newline> \"q\"\"r''"
    "trim ?g = ?g" "?g \<noteq> []"
    by code_simp+
  have "parseCSV (?f @ LF # replicate 1 space @ ?g) =
      Some (if LF \<noteq> comma then [?f] # (if trim ?g = [] then [] else [[trim ?g]])
         else [?f # (if trim ?g = [] then [] else [trim ?g])])"
    using quoted_fields_unescaped
      [where f = ?f and d = LF and g = ?g and k = 1, THEN conjunct2, THEN conjunct2,
        THEN conjunct2, THEN conjunct2, THEN conjunct2, THEN conjunct2] f
    by blast
  then have five: "parseCSV (js ''x\"\"y\<newline> \"q\"\"r'') = Some [[?f], [?g]]"
    unfolding verb using verb(3) by simp
  from b one b' two it none three four five show ?thesis by blast
qed

text \<open>
  C3, as stated. In \<^verbatim>\<open>a,b c  \<close> the two spaces at the end follow the letter
  \<^verbatim>\<open>c\<close>, not a delimiter, and they are not in the output field. The input
  \<^verbatim>\<open>a b \<close> has no delimiter at all, and the space at its end is lost as well.
\<close>

theorem trailing_space_not_preserved:
  "parseCSV (js ''a,b c  '') = Some [[js ''a'', js ''b c'']] \<and>
   parseCSV (js ''a,b c  '') \<noteq> Some [[js ''a'', js ''b c  '']] \<and>
   list_all (\<lambda>c. \<not> delimiter c) (js ''a b '') \<and>
   parseCSV (js ''a b '') = Some [[js ''a b'']] \<and>
   parseCSV (js ''a b '') \<noteq> Some [[js ''a b '']]"
  by code_simp

text \<open>
  C3, amended. The statement has five parts.
  \<^item> An iteration that finds a marker, with the marker's delimiter at \<open>d\<close>, pushes one
    field and leaves the cursor after the delimiter and after every space that follows it
    at once: all positions between \<open>d\<close> and the new cursor hold spaces, and the new cursor
    does not, so these spaces are in no field. The field keeps its spaces: in Unquoted mode
    it is the text from the cursor to \<open>d\<close> verbatim, in Quoted mode that text less quotes
    only.
  \<^item> On every input, when the loop has left with the variables \<open>fin\<close>, parseCSV returns
    the records of \<open>fin\<close> and its current record, the latter extended by the text from the
    cursor on with the white space at its two ends removed, when that text is there and not
    blank.
  \<^item> The loop does leave, after at most \<open>length s\<close> iterations that found a marker.
  \<^item> So for a first field \<open>f\<close>, unquoted or written between quotes, followed by a
    delimiter, \<open>k\<close> spaces and a text \<open>g\<close> without a delimiter, parseCSV returns \<open>f\<close>
    with all its spaces and \<open>g\<close> trimmed; the \<open>k\<close> spaces are in neither.
  \<^item> Trimming removes white space at the two ends only.
\<close>

theorem spaces_after_delimiter_consumed:
  "(loop_body s st = Some st' \<longrightarrow>
      (\<exists>d field. startIndex st \<le> d \<and> d < length s \<and> delimiter (s ! d) \<and>
         st' = pushed st field (s ! d \<noteq> comma)
           (Suc d + length (takeWhile (\<lambda>x. x = space) (drop (Suc d) s))) \<and>
         d < startIndex st' \<and> startIndex st' \<le> length s \<and>
         (\<forall>p. d < p \<and> p < startIndex st' \<longrightarrow> s ! p = space) \<and>
         (startIndex st' < length s \<longrightarrow> s ! startIndex st' \<noteq> space) \<and>
         (if charAt s (startIndex st) = [dquote]
          then filter (\<lambda>x. x \<noteq> dquote) field =
               filter (\<lambda>x. x \<noteq> dquote) (take (d - startIndex st) (drop (startIndex st) s))
          else field = take (d - startIndex st) (drop (startIndex st) s)))) \<and>
   (iterations n s \<lparr>startIndex = 0, records = [], currentRecord = []\<rparr> = Some fin \<and>
    loop_body s fin = None \<longrightarrow>
      parseCSV s = Some
        (if startIndex fin < length s \<and> trim (drop (startIndex fin) s) \<noteq> []
         then records fin @ [currentRecord fin @ [trim (drop (startIndex fin) s)]]
         else if currentRecord fin \<noteq> [] then records fin @ [currentRecord fin]
         else records fin)) \<and>
   (\<exists>m stop. m \<le> length s \<and>
      iterations m s \<lparr>startIndex = 0, records = [], currentRecord = []\<rparr> = Some stop \<and>
      loop_body s stop = None) \<and>
   ((\<forall>c \<in> set f. \<not> delimiter c) \<and> (f \<noteq> [] \<longrightarrow> hd f \<noteq> dquote) \<and> delimiter e \<and>
    (\<forall>c \<in> set g. \<not> delimiter c) \<longrightarrow>
      parseCSV (f @ e # replicate k space @ g) = Some
        (if e \<noteq> comma then [f] # (if trim g = [] then [] else [[trim g]])
         else [f # (if trim g = [] then [] else [trim g])])) \<and>
   (dquote \<notin> set t \<and> (t \<noteq> [] \<longrightarrow> \<not> delimiter (hd t)) \<and> delimiter e \<and>
    (\<forall>c \<in> set g. \<not> delimiter c) \<longrightarrow>
      parseCSV (dquote # t @ dquote # e # replicate k space @ g) = Some
        (if e \<noteq> comma then [t] # (if trim g = [] then [] else [[trim g]])
         else [t # (if trim g = [] then [] else [trim g])])) \<and>
   (\<exists>a b. g = a @ trim g @ b \<and> (\<forall>c \<in> set a. white_space c) \<and> (\<forall>c \<in> set b. white_space c))"
proof (intro conjI impI)
  assume "loop_body s st = Some st'"
  from loop_body_marker [OF this]
  show "\<exists>d field. startIndex st \<le> d \<and> d < length s \<and> delimiter (s ! d) \<and>
      st' = pushed st field (s ! d \<noteq> comma)
        (Suc d + length (takeWhile (\<lambda>x. x = space) (drop (Suc d) s))) \<and>
      d < startIndex st' \<and> startIndex st' \<le> length s \<and>
      (\<forall>p. d < p \<and> p < startIndex st' \<longrightarrow> s ! p = space) \<and>
      (startIndex st' < length s \<longrightarrow> s ! startIndex st' \<noteq> space) \<and>
      (if charAt s (startIndex st) = [dquote]
       then filter (\<lambda>x. x \<noteq> dquote) field =
            filter (\<lambda>x. x \<noteq> dquote) (take (d - startIndex st) (drop (startIndex st) s))
       else field = take (d - startIndex st) (drop (startIndex st) s))" .
next
  assume "iterations n s \<lparr>startIndex = 0, records = [], currentRecord = []\<rparr> = Some fin \<and>
    loop_body s fin = None"
  then have it: "iterations n s \<lparr>startIndex = 0, records = [], currentRecord = []\<rparr> = Some fin"
    and none: "loop_body s fin = None"
    by simp_all
  from parseCSV_result [OF it none]
  show "parseCSV s = Some
        (if startIndex fin < length s \<and> trim (drop (startIndex fin) s) \<noteq> []
         then records fin @ [currentRecord fin @ [trim (drop (startIndex fin) s)]]
         else if currentRecord fin \<noteq> [] then records fin @ [currentRecord fin]
         else records fin)" .
next
  from parse_loop_iterations [of s "\<lparr>startIndex = 0, records = [], currentRecord = []\<rparr>"]
  show "\<exists>m stop. m \<le> length s \<and>
      iterations m s \<lparr>startIndex = 0, records = [], currentRecord = []\<rparr> = Some stop \<and>
      loop_body s stop = None"
    by auto
next
  assume "(\<forall>c \<in> set f. \<not> delimiter c) \<and> (f \<noteq> [] \<longrightarrow> hd f \<noteq> dquote) \<and> delimiter e \<and>
    (\<forall>c \<in> set g. \<not> delimiter c)"
  then show "parseCSV (f @ e # replicate k space @ g) = Some
      (if e \<noteq> comma then [f] # (if trim g = [] then [] else [[trim g]])
       else [f # (if trim g = [] then [] else [trim g])])"
    by (intro parseCSV_unquoted_then_text) simp_all
next
  assume a: "dquote \<notin> set t \<and> (t \<noteq> [] \<longrightarrow> \<not> delimiter (hd t)) \<and> delimiter e \<and>
    (\<forall>c \<in> set g. \<not> delimiter c)"
  then have same: "double_quotes t = t" by (intro double_quotes_no_quote) simp
  from a have "\<not> quote_before_delimiter t" by (intro no_quote_before_delimiter) simp
  with a have "parseCSV (dquote # double_quotes t @ dquote # e # replicate k space @ g) = Some
      (if e \<noteq> comma then [t] # (if trim g = [] then [] else [[trim g]])
       else [t # (if trim g = [] then [] else [trim g])])"
    by (intro parseCSV_quoted_then_text) simp_all
  then show "parseCSV (dquote # t @ dquote # e # replicate k space @ g) = Some
      (if e \<noteq> comma then [t] # (if trim g = [] then [] else [[trim g]])
       else [t # (if trim g = [] then [] else [trim g])])"
    unfolding same .
next
  show "\<exists>a b. g = a @ trim g @ b \<and> (\<forall>c \<in> set a. white_space c) \<and> (\<forall>c \<in> set b. white_space c)"
    by (rule trim_decompose)
qed

theorem spaces_after_delimiter_consumed_witness:
  "loop_body (js ''a b,  c d,'') \<lparr>startIndex = 0, records = [], currentRecord = []\<rparr> =
     Some \<lparr>startIndex = 6, records = [], currentRecord = [js ''a b'']\<rparr> \<and>
   (\<exists>d field. d < 6 \<and> delimiter (js ''a b,  c d,'' ! d) \<and>
      \<lparr>startIndex = 6, records = [], currentRecord = [js ''a b'']\<rparr> =
        pushed \<lparr>startIndex = 0, records = [], currentRecord = []\<rparr> field
          (js ''a b,  c d,'' ! d \<noteq> comma)
          (Suc d + length (takeWhile (\<lambda>x. x = space) (drop (Suc d) (js ''a b,  c d,'')))) \<and>
      (\<forall>p. d < p \<and> p < 6 \<longrightarrow> js ''a b,  c d,'' ! p = space) \<and>
      js ''a b,  c d,'' ! 6 \<noteq> space \<and>
      field = take d (js ''a b,  c d,'')) \<and>
   iterations 1 (js ''a,b c  '') \<lparr>startIndex = 0, records = [], currentRecord = []\<rparr> =
     Some \<lparr>startIndex = 2, records = [], currentRecord = [js ''a'']\<rparr> \<and>
   loop_body (js ''a,b c  '') \<lparr>startIndex = 2, records = [], currentRecord = [js ''a'']\<rparr> =
     None \<and>
   parseCSV (js ''a,b c  '') = Some [[js ''a'', js ''b c'']] \<and>
   parseCSV (js '' x y ,    p q '') = Some [[js '' x y '', js ''p q'']] \<and>
   parseCSV (js ''\" u, v \"\<newline>  w '') = Some [[js '' u, v ''], [js ''w'']]"
proof -
  let ?s = "js ''a b,  c d,''"
  let ?init = "\<lparr>startIndex = 0, records = [], currentRecord = []\<rparr>"
  let ?st' = "\<lparr>startIndex = 6, records = [], currentRecord = [js ''a b'']\<rparr>"
  have b: "loop_body ?s ?init = Some ?st'" by code_simp
  have q: "charAt ?s (startIndex ?init) \<noteq> [dquote]" by code_simp
  have len: "startIndex ?st' < length ?s" by code_simp
  have "\<exists>d field. startIndex ?init \<le> d \<and> d < length ?s \<and> delimiter (?s ! d) \<and>
      ?st' = pushed ?init field (?s ! d \<noteq> comma)
        (Suc d + length (takeWhile (\<lambda>x. x = space) (drop (Suc d) ?s))) \<and>
      d < startIndex ?st' \<and> startIndex ?st' \<le> length ?s \<and>
      (\<forall>p. d < p \<and> p < startIndex ?st' \<longrightarrow> ?s ! p = space) \<and>
      (startIndex ?st' < length ?s \<longrightarrow> ?s ! startIndex ?st' \<noteq> space) \<and>
      (if charAt ?s (startIndex ?init) = [dquote]
       then filter (\<lambda>x. x \<noteq> dquote) field =
            filter (\<lambda>x. x \<noteq> dquote) (take (d - startIndex ?init) (drop (startIndex ?init) ?s))
       else field = take (d - startIndex ?init) (drop (startIndex ?init) ?s))"
    using spaces_after_delimiter_consumed
      [where s = ?s and st = ?init and st' = ?st', THEN conjunct1] b
    by blast
  then obtain d field where
    d: "delimiter (?s ! d)"
      "?st' = pushed ?init field (?s ! d \<noteq> comma)
        (Suc d + length (takeWhile (\<lambda>x. x = space) (drop (Suc d) ?s)))"
      "d < startIndex ?st'"
      "\<forall>p. d < p \<and> p < startIndex ?st' \<longrightarrow> ?s ! p = space"
      "startIndex ?st' < length ?s \<longrightarrow> ?s ! startIndex ?st' \<noteq> space"
      "if charAt ?s (startIndex ?init) = [dquote]
       then filter (\<lambda>x. x \<noteq> dquote) field =
            filter (\<lambda>x. x \<noteq> dquote) (take (d - startIndex ?init) (drop (startIndex ?init) ?s))
       else field = take (d - startIndex ?init) (drop (startIndex ?init) ?s)"
    by blast
  from d(6) q have fld: "field = take d ?s" by simp
  from d(5) len have nsp: "?s ! 6 \<noteq> space" by simp
  from d(3) have d6: "d < 6" by simp
  from d(4) have sp: "\<forall>p. d < p \<and> p < 6 \<longrightarrow> ?s ! p = space" by simp
  from d6 d(1,2) sp nsp fld
  have one: "\<exists>d field. d < 6 \<and> delimiter (?s ! d) \<and>
      ?st' = pushed ?init field (?s ! d \<noteq> comma)
        (Suc d + length (takeWhile (\<lambda>x. x = space) (drop (Suc d) ?s))) \<and>
      (\<forall>p. d < p \<and> p < 6 \<longrightarrow> ?s ! p = space) \<and> ?s ! 6 \<noteq> space \<and>
      field = take d ?s"
    by blast
  let ?u = "js ''a,b c  ''"
  let ?st = "\<lparr>startIndex = 2, records = [], currentRecord = [js ''a'']\<rparr>"
  have it: "iterations 1 ?u ?init = Some ?st" by code_simp
  have none: "loop_body ?u ?st = None" by code_simp
  have tail: "startIndex ?st < length ?u" "trim (drop (startIndex ?st) ?u) = js ''b c''"
    "js ''b c'' \<noteq> []"
    by code_simp+
  have "parseCSV ?u = Some
        (if startIndex ?st < length ?u \<and> trim (drop (startIndex ?st) ?u) \<noteq> []
         then records ?st @ [currentRecord ?st @ [trim (drop (startIndex ?st) ?u)]]
         else if currentRecord ?st \<noteq> [] then records ?st @ [currentRecord ?st]
         else records ?st)"
    using spaces_after_delimiter_consumed
      [where s = ?u and n = 1 and fin = ?st, THEN conjunct2, THEN conjunct1] it none
    by blast
  then have two: "parseCSV ?u = Some [[js ''a'', js ''b c'']]"
    unfolding tail using tail(1,3) by simp
  let ?f = "js '' x y ''"
  let ?g = "js '' p q ''"
  have f: "\<forall>c \<in> set ?f. \<not> delimiter c" "?f \<noteq> [] \<longrightarrow> hd ?f \<noteq> dquote"
    "delimiter comma" "\<forall>c \<in> set ?g. \<not> delimiter c"
    by code_simp+
  have unq: "?f @ comma # replicate 3 space @ ?g = js '' x y ,    p q ''"
    "trim ?g = js ''p q''" "js ''p q'' \<noteq> []"
    by code_simp+
  have "parseCSV (?f @ comma # replicate 3 space @ ?g) =
      Some (if comma \<noteq> comma then [?f] # (if trim ?g = [] then [] else [[trim ?g]])
         else [?f # (if trim ?g = [] then [] else [trim ?g])])"
    using spaces_after_delimiter_consumed
      [where f = ?f and e = comma and g = ?g and k = 3, THEN conjunct2, THEN conjunct2,
        THEN conjunct2, THEN conjunct1] f
    by blast
  then have three: "parseCSV (js '' x y ,    p q '') = Some [[?f, js ''p q'']]"
    unfolding unq using unq(3) by simp
  let ?t = "js '' u, v ''"
  let ?w = "js ''w ''"
  have t: "dquote \<notin> set ?t" "?t \<noteq> [] \<longrightarrow> \<not> delimiter (hd ?t)" "delimiter LF"
    "\<forall>c \<in> set ?w. \<not> delimiter c" "LF \<noteq> comma"
    by code_simp+
  have quo: "dquote # ?t @ dquote # LF # replicate 2 space @ ?w = js ''\" u, v \"\<newline>  w ''"
    "trim ?w = js ''w''" "js ''w'' \<noteq> []"
    by code_simp+
  have "parseCSV (dquote # ?t @ dquote # LF # replicate 2 space @ ?w) =
      Some (if LF \<noteq> comma then [?t] # (if trim ?w = [] then [] else [[trim ?w]])
         else [?t # (if trim ?w = [] then [] else [trim ?w])])"
    using spaces_after_delimiter_consumed
      [where t = ?t and e = LF and g = ?w and k = 2, THEN conjunct2, THEN conjunct2,
        THEN conjunct2, THEN conjunct2, THEN conjunct1] t
    by blast
  then have four: "parseCSV (js ''\" u, v \"\<newline>  w '') = Some [[?t], [js ''w'']]"
    unfolding quo using quo(3) by simp
  from b one it none two three four show ?thesis by blast
qed

text \<open>
  C4. Every record of the result holds at least one field, for every input; a field may
  be the empty string, as the second field of \<^verbatim>\<open>a,,c\<close> is.
\<close>

theorem parseCSV_records_nonempty:
  "(\<exists>recs. parseCSV csvString = Some recs \<and> [] \<notin> set recs) \<and>
   parseCSV (js ''a,,c'') = Some [[js ''a'', [], js ''c'']]"
proof
  let ?init = "\<lparr>startIndex = 0, records = [], currentRecord = []\<rparr>"
  obtain st' where st': "parse_loop csvString ?init = Some st'"
    using parse_loop_ends by blast
  have "[] \<notin> set (records st')"
    by (rule parse_loop_invariant [where P = "\<lambda>st. [] \<notin> set (records st)", OF _ _ st'])
      (simp_all add: loop_body_records_nonempty)
  then have "[] \<notin> set (after_loop csvString st')" by (rule after_loop_nonempty)
  with st' show "\<exists>recs. parseCSV csvString = Some recs \<and> [] \<notin> set recs"
    by (simp add: parseCSV_def)
next
  show "parseCSV (js ''a,,c'') = Some [[js ''a'', [], js ''c'']]" by code_simp
qed

text \<open>
  C5. parseCSV is defined on every string: whatever the input, the loop ends and a
  sequence of records is returned. The model has no failure value: the only way not to
  return records would be a loop that never ends (\<open>None\<close>).
\<close>

theorem parseCSV_total: "\<exists>recs. parseCSV csvString = Some recs"
proof -
  obtain st' where "parse_loop csvString \<lparr>startIndex = 0, records = [], currentRecord = []\<rparr> = Some st'"
    using parse_loop_ends by blast
  then show ?thesis by (simp add: parseCSV_def)
qed

theorem parseCSV_total_witness:
  "\<exists>recs. parseCSV (js ''\"unterminated, a\"\"b'') = Some recs"
  by (rule parseCSV_total)

text \<open>
  C6. The loop ends on every input. An iteration that finds a marker moves the cursor
  strictly forward and never past the end of the input; an iteration that finds none
  leaves the loop at once; so at most \<open>length csvString\<close> iterations find a marker, the
  next one leaves the loop, and parseCSV returns.
\<close>

theorem parseCSV_terminates:
  "(\<forall>st st'. loop_body csvString st = Some st' \<longrightarrow>
      startIndex st < startIndex st' \<and> startIndex st' \<le> length csvString) \<and>
   (\<forall>st. loop_body csvString st = None \<longrightarrow> parse_loop csvString st = Some st) \<and>
   (\<exists>n st'. n \<le> length csvString \<and>
      iterations n csvString \<lparr>startIndex = 0, records = [], currentRecord = []\<rparr> = Some st' \<and>
      loop_body csvString st' = None \<and>
      parse_loop csvString \<lparr>startIndex = 0, records = [], currentRecord = []\<rparr> = Some st' \<and>
      parseCSV csvString = Some (after_loop csvString st'))"
proof (intro conjI allI impI)
  fix st st' assume "loop_body csvString st = Some st'"
  then show "startIndex st < startIndex st'" "startIndex st' \<le> length csvString"
    by (simp_all add: loop_body_advances)
next
  fix st assume "loop_body csvString st = None"
  then show "parse_loop csvString st = Some st" by (subst parse_loop.simps) simp
next
  let ?init = "\<lparr>startIndex = 0, records = [], currentRecord = []\<rparr>"
  from parse_loop_iterations [of csvString ?init] obtain n st' where
    "n \<le> length csvString" "iterations n csvString ?init = Some st'"
    "loop_body csvString st' = None" "parse_loop csvString ?init = Some st'"
    by auto
  moreover from this have "parseCSV csvString = Some (after_loop csvString st')"
    by (simp add: parseCSV_def)
  ultimately show "\<exists>n st'. n \<le> length csvString \<and> iterations n csvString ?init = Some st' \<and>
      loop_body csvString st' = None \<and> parse_loop csvString ?init = Some st' \<and>
      parseCSV csvString = Some (after_loop csvString st')"
    by blast
qed

theorem parseCSV_terminates_witness:
  "loop_body (js ''a,b'') \<lparr>startIndex = 0, records = [], currentRecord = []\<rparr> =
     Some \<lparr>startIndex = 2, records = [], currentRecord = [js ''a'']\<rparr> \<and>
   (0::nat) < 2 \<and> 2 \<le> length (js ''a,b'') \<and>
   loop_body (js ''a,b'') \<lparr>startIndex = 2, records = [], currentRecord = [js ''a'']\<rparr> = None \<and>
   parse_loop (js ''a,b'') \<lparr>startIndex = 2, records = [], currentRecord = [js ''a'']\<rparr> =
     Some \<lparr>startIndex = 2, records = [], currentRecord = [js ''a'']\<rparr>"
proof -
  have one: "loop_body (js ''a,b'') \<lparr>startIndex = 0, records = [], currentRecord = []\<rparr> =
     Some \<lparr>startIndex = 2, records = [], currentRecord = [js ''a'']\<rparr>"
    by code_simp
  have two: "loop_body (js ''a,b'') \<lparr>startIndex = 2, records = [], currentRecord = [js ''a'']\<rparr> = None"
    by code_simp
  from parseCSV_terminates [of "js ''a,b''"] one two show ?thesis
    by (simp add: js_def)
qed

text \<open>
  C7. \<^verbatim>\<open>a,"b,c",d\<close> parses into \<^verbatim>\<open>a\<close>, \<^verbatim>\<open>b,c\<close> and \<^verbatim>\<open>d\<close>: the comma
  between the quotes does not end the field. In \<^verbatim>\<open>"a"",b",c\<close> the first field is
  quoted and holds an escaped quote and then a comma; the search for the quoted marker
  takes the second quote of the escaped pair, since a comma follows it, as the closing
  quote, and the comma inside the quotes ends the field. In \<^verbatim>\<open>",b",c\<close> the opening
  quote itself is taken as the closing quote.
\<close>

theorem comma_in_quoted_field:
  "parseCSV (js ''a,\"b,c\",d'') = Some [[js ''a'', js ''b,c'', js ''d'']] \<and>
   parseCSV (js ''\"a\"\",b\",c'') = Some [[js ''a\"'', js ''b\"'', js ''c'']] \<and>
   parseCSV (js ''\",b\",c'') = Some [[js ''\"'', js ''b\"'', js ''c'']]"
  by code_simp

section \<open>Properties of getErrors and getPropertyPath\<close>

text \<open>
  C8. getErrors never lets a failure of the wrapped call through: whatever the call does,
  getErrors returns an array, and a value the call throws is an element of that array.
\<close>

theorem getErrors_never_throws:
  "\<exists>arr. getErrors fn this args = Returned (JSArray arr) \<and>
     (\<forall>e. fn this args = Thrown e \<longrightarrow> e \<in> set arr)"
  by (cases "fn this args") (simp_all add: getErrors_def)

theorem getErrors_never_throws_witness:
  "\<exists>arr. getErrors (\<lambda>this args. Thrown (JSString (js ''boom''))) JSUndefined (JSArray []) =
       Returned (JSArray arr) \<and>
     JSString (js ''boom'') \<in> set arr"
  using getErrors_never_throws
    [of "\<lambda>this args. Thrown (JSString (js ''boom''))" JSUndefined "JSArray []"]
  by simp

text \<open>
  C9. Take any property read \<open>get\<close> that, as the language does, answers \<open>0\<close> for the
  property \<^verbatim>\<open>a\<close> of \<^verbatim>\<open>{a: 0}\<close> and \<^verbatim>\<open>undefined\<close> for the property \<^verbatim>\<open>b\<close> of
  the number \<open>0\<close>. On \<^verbatim>\<open>{a: 0}\<close> and the path \<^verbatim>\<open>['a', 'b']\<close> the descent reaches the
  number \<open>0\<close>, from which the key \<^verbatim>\<open>b\<close> is missing; getPropertyPath returns that \<open>0\<close>,
  not the \<^verbatim>\<open>undefined\<close> of the descent key by key, because it stops at a falsy value:
  whenever the value under the first key is falsy, that value is the result, whatever keys
  remain. On a truthy value without the key (\<^verbatim>\<open>{a: 1}\<close>) it does return
  \<^verbatim>\<open>undefined\<close>.
\<close>

theorem getPropertyPath_stops_at_falsy:
  "(get (JSObject [(js ''a'', JSNumber 0)]) (JSString (js ''a'')) = JSNumber 0 \<and>
    get (JSNumber 0) (JSString (js ''b'')) = JSUndefined \<longrightarrow>
      getPropertyPath get (JSObject [(js ''a'', JSNumber 0)])
        (JSArray [JSString (js ''a''), JSString (js ''b'')]) = JSNumber 0 \<and>
      getPropertyPath get (JSObject [(js ''a'', JSNumber 0)])
        (JSArray [JSString (js ''a''), JSString (js ''b'')]) \<noteq>
      get (get (JSObject [(js ''a'', JSNumber 0)]) (JSString (js ''a''))) (JSString (js ''b''))) \<and>
   (truthy obj \<and> \<not> truthy (get obj k) \<longrightarrow>
      getPropertyPath get obj (JSArray (k # ks)) = get obj k) \<and>
   (get (JSObject [(js ''a'', JSNumber 0x3FF0000000000000)]) (JSString (js ''a'')) =
      JSNumber 0x3FF0000000000000 \<and>
    get (JSNumber 0x3FF0000000000000) (JSString (js ''b'')) = JSUndefined \<longrightarrow>
      getPropertyPath get (JSObject [(js ''a'', JSNumber 0x3FF0000000000000)])
        (JSArray [JSString (js ''a''), JSString (js ''b'')]) = JSUndefined)"
proof (intro conjI impI)
  assume a: "get (JSObject [(js ''a'', JSNumber 0)]) (JSString (js ''a'')) = JSNumber 0 \<and>
    get (JSNumber 0) (JSString (js ''b'')) = JSUndefined"
  then show zero: "getPropertyPath get (JSObject [(js ''a'', JSNumber 0)])
        (JSArray [JSString (js ''a''), JSString (js ''b'')]) = JSNumber 0"
    by (simp add: is_zero_def)
  from a show "getPropertyPath get (JSObject [(js ''a'', JSNumber 0)])
        (JSArray [JSString (js ''a''), JSString (js ''b'')]) \<noteq>
      get (get (JSObject [(js ''a'', JSNumber 0)]) (JSString (js ''a''))) (JSString (js ''b''))"
    unfolding zero by simp
next
  assume "truthy obj \<and> \<not> truthy (get obj k)"
  then show "getPropertyPath get obj (JSArray (k # ks)) = get obj k"
    by simp
next
  assume "get (JSObject [(js ''a'', JSNumber 0x3FF0000000000000)]) (JSString (js ''a'')) =
      JSNumber 0x3FF0000000000000 \<and>
    get (JSNumber 0x3FF0000000000000) (JSString (js ''b'')) = JSUndefined"
  then show "getPropertyPath get (JSObject [(js ''a'', JSNumber 0x3FF0000000000000)])
        (JSArray [JSString (js ''a''), JSString (js ''b'')]) = JSUndefined"
    by (simp add: is_zero_def is_NaN_def)
qed

theorem getPropertyPath_stops_at_falsy_witness:
  "getPropertyPath
     (\<lambda>obj key. case obj of
        JSObject kvs \<Rightarrow>
          (case key of
             JSString k \<Rightarrow> (case map_of kvs k of Some v \<Rightarrow> v | None \<Rightarrow> JSUndefined)
           | _ \<Rightarrow> JSUndefined)
      | _ \<Rightarrow> JSUndefined)
     (JSObject [(js ''a'', JSNumber 0)])
     (JSArray [JSString (js ''a''), JSString (js ''b'')]) = JSNumber 0 \<and>
   getPropertyPath
     (\<lambda>obj key. case obj of
        JSObject kvs \<Rightarrow>
          (case key of
             JSString k \<Rightarrow> (case map_of kvs k of Some v \<Rightarrow> v | None \<Rightarrow> JSUndefined)
           | _ \<Rightarrow> JSUndefined)
      | _ \<Rightarrow> JSUndefined)
     (JSObject [(js ''a'', JSNumber 0x3FF0000000000000)])
     (JSArray [JSString (js ''a''), JSString (js ''b'')]) = JSUndefined"
proof -
  let ?get = "\<lambda>obj key. case obj of
        JSObject kvs \<Rightarrow>
          (case key of
             JSString k \<Rightarrow> (case map_of kvs k of Some v \<Rightarrow> v | None \<Rightarrow> JSUndefined)
           | _ \<Rightarrow> JSUndefined)
      | _ \<Rightarrow> JSUndefined"
  have r0: "?get (JSObject [(js ''a'', JSNumber 0)]) (JSString (js ''a'')) = JSNumber 0 \<and>
      ?get (JSNumber 0) (JSString (js ''b'')) = JSUndefined"
    by simp
  have r1: "?get (JSObject [(js ''a'', JSNumber 0x3FF0000000000000)]) (JSString (js ''a'')) =
        JSNumber 0x3FF0000000000000 \<and>
      ?get (JSNumber 0x3FF0000000000000) (JSString (js ''b'')) = JSUndefined"
    by simp
  from getPropertyPath_stops_at_falsy [where get = ?get, THEN conjunct1] r0
  have one: "getPropertyPath ?get (JSObject [(js ''a'', JSNumber 0)])
      (JSArray [JSString (js ''a''), JSString (js ''b'')]) = JSNumber 0"
    by blast
  from getPropertyPath_stops_at_falsy [where get = ?get, THEN conjunct2, THEN conjunct2] r1
  have two: "getPropertyPath ?get (JSObject [(js ''a'', JSNumber 0x3FF0000000000000)])
      (JSArray [JSString (js ''a''), JSString (js ''b'')]) = JSUndefined"
    by blast
  from one two show ?thesis by blast
qed

text \<open>
  C10. When the call returns: a falsy value (\<^verbatim>\<open>false\<close>, \<^verbatim>\<open>0\<close>, \<^verbatim>\<open>-0\<close>,
  \<^verbatim>\<open>NaN\<close>, the empty string, \<^verbatim>\<open>null\<close>, \<^verbatim>\<open>undefined\<close>) gives the empty array; an array
  gives its elements, one level deep; any other truthy value gives the array of that one
  value.
\<close>

theorem getErrors_result_shape:
  "(fn this args = Returned v \<and> \<not> truthy v \<longrightarrow>
      getErrors fn this args = Returned (JSArray [])) \<and>
   (fn this args = Returned (JSArray xs) \<longrightarrow>
      getErrors fn this args = Returned (JSArray xs)) \<and>
   (fn this args = Returned v \<and> truthy v \<and> (\<forall>ys. v \<noteq> JSArray ys) \<longrightarrow>
      getErrors fn this args = Returned (JSArray [v])) \<and>
   \<not> truthy (JSBoolean False) \<and> \<not> truthy (JSNumber 0) \<and>
   \<not> truthy (JSNumber 0x8000000000000000) \<and> \<not> truthy (JSNumber 0x7FF8000000000000) \<and>
   \<not> truthy (JSString []) \<and> \<not> truthy JSNull \<and> \<not> truthy JSUndefined"
  by (cases v) (auto simp: getErrors_def is_zero_def is_NaN_def)

theorem getErrors_result_shape_witness:
  "getErrors (\<lambda>this args. Returned (JSNumber 0)) JSUndefined (JSArray []) =
     Returned (JSArray []) \<and>
   getErrors (\<lambda>this args. Returned (JSArray [JSArray [JSNull], JSString (js ''late'')]))
       JSUndefined (JSArray []) =
     Returned (JSArray [JSArray [JSNull], JSString (js ''late'')]) \<and>
   getErrors (\<lambda>this args. Returned (JSString (js ''required''))) JSUndefined (JSArray []) =
     Returned (JSArray [JSString (js ''required'')])"
proof (intro conjI)
  have "\<not> truthy (JSNumber 0)" by (simp add: is_zero_def)
  with getErrors_result_shape
    [of "\<lambda>this args. Returned (JSNumber 0)" JSUndefined "JSArray []" "JSNumber 0"]
  show "getErrors (\<lambda>this args. Returned (JSNumber 0)) JSUndefined (JSArray []) =
     Returned (JSArray [])"
    by (simp add: is_zero_def)
next
  from getErrors_result_shape
    [of "\<lambda>this args. Returned (JSArray [JSArray [JSNull], JSString (js ''late'')])"
      JSUndefined "JSArray []" _ "[JSArray [JSNull], JSString (js ''late'')]"]
  show "getErrors (\<lambda>this args. Returned (JSArray [JSArray [JSNull], JSString (js ''late'')]))
       JSUndefined (JSArray []) =
     Returned (JSArray [JSArray [JSNull], JSString (js ''late'')])"
    by simp
next
  have "truthy (JSString (js ''required''))" by (simp add: js_def)
  with getErrors_result_shape
    [of "\<lambda>this args. Returned (JSString (js ''required''))" JSUndefined "JSArray []"
      "JSString (js ''required'')"]
  show "getErrors (\<lambda>this args. Returned (JSString (js ''required''))) JSUndefined (JSArray []) =
     Returned (JSArray [JSString (js ''required'')])"
    by (simp add: js_def)
qed

end
